theory Spec2Isabelle
  imports Complex_Main "HOL-Library.AList" "HOL-Library.Char_ord" "HOL-Library.List_Lexorder"
    "HOL-Library.Product_Lexorder" "HOL-Library.Multiset"
begin

section \<open>Strings and tokenization\<close>

text \<open>
  A Python \<open>str\<close> is a sequence of code points. The model covers the code points 0..255,
  one \<^typ>\<open>char\<close> each; \<open>str\<close> comparison is lexicographic on code points, which is the
  order of \<^typ>\<open>string\<close> given by the list and character orders imported above.

  \<open>str.strip()\<close> removes leading and trailing characters for which \<open>str.isspace()\<close>
  holds; below code point 256 these are 9..13, 28..32, 133 and 160.
\<close>

definition is_space :: "char \<Rightarrow> bool" where
  "is_space c =
     (let n = (of_char c :: nat)
      in (9 \<le> n \<and> n \<le> 13) \<or> (28 \<le> n \<and> n \<le> 32) \<or> n = 133 \<or> n = 160)"

definition strip :: "string \<Rightarrow> string" where
  "strip s = rev (dropWhile is_space (rev (dropWhile is_space s)))"

text \<open>
  \<open>str.lower()\<close> below code point 256: the letters A..Z (65..90) and the Latin-1 capitals
  192..222 other than the multiplication sign 215 move up by 32; every other character
  stays.
\<close>

definition lower_char :: "char \<Rightarrow> char" where
  "lower_char c =
     (let n = (of_char c :: nat)
      in if (65 \<le> n \<and> n \<le> 90) \<or> (192 \<le> n \<and> n \<le> 222 \<and> n \<noteq> 215)
         then char_of (n + 32) else c)"

definition lower :: "string \<Rightarrow> string" where
  "lower s = map lower_char s"

text \<open>
  \<open>words_string.split(',')\<close>: the pieces between commas, in order. The empty string has
  one (empty) piece, and \<open>n\<close> commas give \<open>n + 1\<close> pieces.
\<close>

fun split_comma :: "string \<Rightarrow> string list" where
  "split_comma [] = [[]]"
| "split_comma (c # cs) =
     (if c = CHR '','' then [] # split_comma cs
      else (case split_comma cs of
              [] \<Rightarrow> [[c]]
            | p # ps \<Rightarrow> (c # p) # ps))"

text \<open>
  The first line of \<open>add_words\<close>:
  \<^verbatim>\<open>words = [word.strip().lower() for word in words_string.split(',') if word.strip()]\<close>
\<close>

definition tokenize :: "string \<Rightarrow> string list" where
  "tokenize words_string =
     map (\<lambda>word. lower (strip word)) (filter (\<lambda>word. strip word \<noteq> []) (split_comma words_string))"

section \<open>The analyzer state\<close>

text \<open>
  Python integers are unbounded: \<^typ>\<open>int\<close>. A \<open>dict\<close> (and the \<open>Counter\<close>) is an
  association list in insertion order, which is the order Python iterates it in;
  \<^const>\<open>AList.update\<close> overwrites a present key in place and appends an absent one, as a
  \<open>dict\<close> assignment does.

  The two doubly linked lists are kept as the list of their nodes from head to tail:
  \<open>top_five_head\<close>/\<open>freq_head\<close> is the first node, \<open>top_five_tail\<close>/\<open>freq_tail\<close> the last
  one, and both are \<open>None\<close> exactly when the list is empty. A \<open>TopFiveNode\<close> is the pair
  (word, frequency), a \<open>FrequencyCountNode\<close> the pair (frequency, count). A reference to a
  node is its position in the list.
\<close>

type_synonym top_five_node = "string \<times> int"
type_synonym frequency_count_node = "int \<times> int"

record analyzer =
  word_counts :: "(string \<times> int) list"
  top_five_nodes :: "top_five_node list"
  freq_nodes :: "frequency_count_node list"
  total_words :: int

definition init :: analyzer where
  "init = \<lparr>word_counts = [], top_five_nodes = [], freq_nodes = [], total_words = 0\<rparr>"

text \<open>\<open>counter[key]\<close> of a \<open>Counter\<close> and \<open>d.get(key, 0)\<close> of a \<open>dict\<close>: 0 for an absent key.\<close>

definition get0 :: "('k \<times> int) list \<Rightarrow> 'k \<Rightarrow> int" where
  "get0 d k = (case map_of d k of None \<Rightarrow> 0 | Some v \<Rightarrow> v)"

section \<open>The frequency count list\<close>

fun find_frequency_node :: "frequency_count_node list \<Rightarrow> int \<Rightarrow> nat option" where
  "find_frequency_node [] frequency = None"
| "find_frequency_node (current # rest) frequency =
     (if fst current = frequency then Some 0
      else map_option Suc (find_frequency_node rest frequency))"

text \<open>
  \<open>_insert_frequency_node\<close>: the scan passes every node whose frequency is greater than
  the new one and links the new node before the first other node, or after the tail.
\<close>

fun insert_frequency_node :: "frequency_count_node list \<Rightarrow> int \<Rightarrow> int \<Rightarrow> frequency_count_node list" where
  "insert_frequency_node [] frequency cnt = [(frequency, cnt)]"
| "insert_frequency_node (current # rest) frequency cnt =
     (if fst current > frequency then current # insert_frequency_node rest frequency cnt
      else (frequency, cnt) # current # rest)"

definition remove_frequency_node :: "frequency_count_node list \<Rightarrow> nat \<Rightarrow> frequency_count_node list" where
  "remove_frequency_node nodes i = take i nodes @ drop (Suc i) nodes"

text \<open>One round of the loop of \<open>_update_frequency_counts\<close>, for one item of \<open>changes\<close>.\<close>

definition apply_change :: "frequency_count_node list \<Rightarrow> int \<times> int \<Rightarrow> frequency_count_node list" where
  "apply_change nodes item =
     (let frequency = fst item; change = snd item
      in if change = 0 then nodes
         else (case find_frequency_node nodes frequency of
                 Some i \<Rightarrow>
                   (let nodes' = nodes[i := (fst (nodes ! i), snd (nodes ! i) + change)]
                    in if snd (nodes' ! i) \<le> 0 then remove_frequency_node nodes' i else nodes')
               | None \<Rightarrow>
                   if change > 0 then insert_frequency_node nodes frequency change else nodes))"

definition update_frequency_counts :: "frequency_count_node list \<Rightarrow> (int \<times> int) list \<Rightarrow> frequency_count_node list" where
  "update_frequency_counts nodes changes = foldl apply_change nodes changes"

section \<open>The top 5 list\<close>

text \<open>The sort key \<^verbatim>\<open>lambda x: (-x[1], x[0])\<close>; tuples compare lexicographically.\<close>

definition rank_key :: "string \<times> int \<Rightarrow> int \<times> string" where
  "rank_key x = (- snd x, fst x)"

text \<open>\<open>list.sort\<close> is stable, as \<^const>\<open>sort_key\<close> is.\<close>

definition build_initial_top5 :: "(string \<times> int) list \<Rightarrow> top_five_node list" where
  "build_initial_top5 counts = take 5 (sort_key rank_key counts)"

definition should_be_in_top5 :: "string \<Rightarrow> int \<Rightarrow> top_five_node list \<Rightarrow> bool" where
  "should_be_in_top5 word f current_top5 =
     (if length current_top5 < 5 then True
      else if f > snd (current_top5 ! 4) then True
      else if f = snd (current_top5 ! 4) \<and> word < fst (current_top5 ! 4) then True
      else False)"

definition insert_or_update_in_top5 :: "string \<Rightarrow> int \<Rightarrow> top_five_node list \<Rightarrow> top_five_node list" where
  "insert_or_update_in_top5 word f current_top5 =
     take 5 (sort_key rank_key (filter (\<lambda>x. fst x \<noteq> word) current_top5 @ [(word, f)]))"

text \<open>One round of the loop over \<open>changed_words\<close> in \<open>_update_top_five_incremental\<close>.\<close>

definition reconcile_word :: "(string \<times> int) list \<Rightarrow> top_five_node list \<Rightarrow> string \<Rightarrow> top_five_node list" where
  "reconcile_word counts current_top5 word =
     (let f = get0 counts word
      in if should_be_in_top5 word f current_top5
         then insert_or_update_in_top5 word f current_top5
         else current_top5)"

text \<open>
  Which of the two paths \<open>_update_top_five_incremental\<close> took: the call of
  \<open>_build_initial_top5\<close> followed by \<open>return\<close>, or the loop over the changed words.
\<close>

datatype top5_path = Full_rebuild | Incremental

text \<open>
  \<open>changed_words\<close> is a Python \<open>set\<close>, whose iteration order is not specified. The
  argument \<open>changed_order\<close> is the order in which the loop visits the set; \<open>add_words\<close>
  below obtains it from the order function of the run.
\<close>

definition update_top_five_incremental ::
  "(string \<times> int) list \<Rightarrow> top_five_node list \<Rightarrow> string list \<Rightarrow> top5_path \<times> top_five_node list" where
  "update_top_five_incremental counts nodes changed_order =
     (let current_top5 = nodes
      in if current_top5 = [] then (Full_rebuild, build_initial_top5 counts)
         else (Incremental, foldl (reconcile_word counts) current_top5 changed_order))"

section \<open>Ingesting a batch\<close>

text \<open>
  The loop over \<open>words\<close> in \<open>add_words\<close>. Its state is the counter, the \<open>changes\<close>
  dictionary, the elements added to \<open>changed_words\<close> (in the order of the \<open>add\<close> calls)
  and \<open>total_words\<close>.
\<close>

type_synonym count_state = "(string \<times> int) list \<times> (int \<times> int) list \<times> string list \<times> int"

definition count_word :: "count_state \<Rightarrow> string \<Rightarrow> count_state" where
  "count_word st word =
     (case st of (counts, changes, changed_words, total_count) \<Rightarrow>
        (let old_count = get0 counts word;
             counts' = AList.update word (old_count + 1) counts;
             new_count = get0 counts' word;
             changes1 = (if old_count > 0
                         then AList.update old_count (get0 changes old_count - 1) changes
                         else changes);
             changes2 = AList.update new_count (get0 changes1 new_count + 1) changes1;
             changed_words' = (if old_count \<noteq> new_count then changed_words @ [word]
                               else changed_words)
         in (counts', changes2, changed_words', total_count + 1)))"

text \<open>
  \<open>set_order\<close> stands for the iteration order of a Python \<open>set\<close> of strings: from the
  sequence of elements added to an empty set, the sequence in which iterating the set
  yields them. Whatever the hash function, that is each element of the set once.
\<close>

definition set_order :: "(string list \<Rightarrow> string list) \<Rightarrow> bool" where
  "set_order iter = (\<forall>added. distinct (iter added) \<and> set (iter added) = set added)"

text \<open>\<open>add_words\<close>, returning also the path of the top 5 update, if one ran.\<close>

definition add_words_traced ::
  "(string list \<Rightarrow> string list) \<Rightarrow> analyzer \<Rightarrow> string \<Rightarrow> top5_path option \<times> analyzer" where
  "add_words_traced iter self words_string =
     (let words = tokenize words_string
      in if words = [] then (None, self)
         else (case foldl count_word (word_counts self, [], [], total_words self) words of
                 (counts, changes, changed_words, total_count) \<Rightarrow>
                   (let nodes = update_frequency_counts (freq_nodes self) changes;
                        self1 = self\<lparr>word_counts := counts, freq_nodes := nodes, total_words := total_count\<rparr>
                    in if changed_words \<noteq> []
                       then (case update_top_five_incremental counts (top_five_nodes self1) (iter changed_words) of
                               (path, top5) \<Rightarrow> (Some path, self1\<lparr>top_five_nodes := top5\<rparr>))
                       else (None, self1))))"

definition add_words :: "(string list \<Rightarrow> string list) \<Rightarrow> analyzer \<Rightarrow> string \<Rightarrow> analyzer" where
  "add_words iter self words_string = snd (add_words_traced iter self words_string)"

definition clear :: "analyzer \<Rightarrow> analyzer" where
  "clear self = self\<lparr>word_counts := [], top_five_nodes := [], freq_nodes := [], total_words := 0\<rparr>"

section \<open>Queries\<close>

definition get_top_five_most_frequent :: "analyzer \<Rightarrow> (string \<times> int) list" where
  "get_top_five_most_frequent self = top_five_nodes self"

definition get_lowest_frequency :: "analyzer \<Rightarrow> int" where
  "get_lowest_frequency self =
     (if freq_nodes self = [] then 0 else fst (last (freq_nodes self)))"

text \<open>
  \<open>get_median_frequency\<close> returns a \<open>float\<close>; the model returns the exact quotient as a
  \<^typ>\<open>real\<close>. Python's \<open>int / int\<close> and \<open>float(int)\<close> are exact while the integers
  stay below \<open>2 ^ 53\<close>.
\<close>

definition get_median_frequency :: "analyzer \<Rightarrow> real" where
  "get_median_frequency self =
     (if word_counts self = [] then 0
      else (let frequency_values = sort (map snd (word_counts self));
                n = length frequency_values
            in if n mod 2 = 0
               then real_of_int (frequency_values ! (n div 2 - 1) + frequency_values ! (n div 2)) / 2
               else real_of_int (frequency_values ! (n div 2))))"

definition get_all_frequencies :: "analyzer \<Rightarrow> (string \<rightharpoonup> int)" where
  "get_all_frequencies self = map_of (word_counts self)"

definition get_frequency_counts :: "analyzer \<Rightarrow> (int \<times> int) list" where
  "get_frequency_counts self = freq_nodes self"

section \<open>Runs\<close>

datatype operation = Add_words string | Clear

fun step :: "(string list \<Rightarrow> string list) \<Rightarrow> analyzer \<Rightarrow> operation \<Rightarrow> analyzer" where
  "step iter self (Add_words words_string) = add_words iter self words_string"
| "step iter self Clear = clear self"

definition run :: "(string list \<Rightarrow> string list) \<Rightarrow> operation list \<Rightarrow> analyzer" where
  "run iter ops = foldl (step iter) init ops"

section \<open>What the specification compares the analyzer with\<close>

text \<open>
  Count fidelity speaks of the batches ingested since construction or the last reset, and
  of the number of comma-separated pieces of a batch that are a given word once trimmed and
  case-folded.
\<close>

fun batches_since_reset :: "operation list \<Rightarrow> string list" where
  "batches_since_reset [] = []"
| "batches_since_reset (Add_words words_string # ops) =
     (if Clear \<in> set ops then batches_since_reset ops
      else words_string # batches_since_reset ops)"
| "batches_since_reset (Clear # ops) = batches_since_reset ops"

definition occurrences :: "string \<Rightarrow> string \<Rightarrow> nat" where
  "occurrences w words_string =
     length (filter (\<lambda>piece. lower (strip piece) = w) (split_comma words_string))"

definition total_occurrences :: "string \<Rightarrow> operation list \<Rightarrow> nat" where
  "total_occurrences w ops = sum_list (map (occurrences w) (batches_since_reset ops))"

text \<open>
  The statistical median of a multiset of integers: with its elements in ascending
  order, the central one when there is an odd number of them, the average of the two
  central ones when the number is even; 0 for the empty multiset.
\<close>

definition statistical_median :: "int multiset \<Rightarrow> real" where
  "statistical_median values =
     (let ascending = sorted_list_of_multiset values; n = length ascending
      in if n = 0 then 0
         else if odd n then real_of_int (ascending ! (n div 2))
         else (real_of_int (ascending ! (n div 2 - 1)) + real_of_int (ascending ! (n div 2))) / 2)"

text \<open>One frequency value per distinct word of the vocabulary.\<close>

definition frequency_multiset :: "analyzer \<Rightarrow> int multiset" where
  "frequency_multiset self =
     image_mset (\<lambda>w. the (get_all_frequencies self w)) (mset_set (dom (get_all_frequencies self)))"

text \<open>
  The path of the top 5 update in each operation of a sequence (\<open>None\<close> where no update
  runs), and the number of full rebuilds of a sequence applied to a new analyzer.
\<close>

fun trace :: "(string list \<Rightarrow> string list) \<Rightarrow> analyzer \<Rightarrow> operation list \<Rightarrow> top5_path option list" where
  "trace iter self [] = []"
| "trace iter self (Add_words words_string # ops) =
     fst (add_words_traced iter self words_string) # trace iter (add_words iter self words_string) ops"
| "trace iter self (Clear # ops) = None # trace iter (clear self) ops"

definition full_rebuilds :: "(string list \<Rightarrow> string list) \<Rightarrow> operation list \<Rightarrow> nat" where
  "full_rebuilds iter ops = count_list (trace iter init ops) (Some Full_rebuild)"

section \<open>Consistency of the three structures\<close>

text \<open>The number of distinct words that hold the frequency \<open>f\<close> in the counter.\<close>

definition words_with :: "(string \<times> int) list \<Rightarrow> int \<Rightarrow> int" where
  "words_with counts f = int (length (filter (\<lambda>x. snd x = f) counts))"

text \<open>
  The frequency count list is well formed: strictly descending frequencies (so no two
  nodes share one) and positive counts.
\<close>

definition freq_nodes_ok :: "frequency_count_node list \<Rightarrow> bool" where
  "freq_nodes_ok nodes = (sorted_wrt (>) (map fst nodes) \<and> list_all (\<lambda>n. 0 < snd n) nodes)"

text \<open>
  The order of the top 5 list, written out: higher frequency first, and among equal
  frequencies the smaller word first.
\<close>

definition ranks_before :: "string \<times> int \<Rightarrow> string \<times> int \<Rightarrow> bool" where
  "ranks_before x y = (snd x > snd y \<or> (snd x = snd y \<and> fst x < fst y))"

text \<open>
  The states in which the counter and the frequency count list agree: the counter has
  each word once, with a positive count; the frequency count list is well formed and
  gives, for every frequency, the number of words that hold it.
\<close>

definition counts_consistent :: "analyzer \<Rightarrow> bool" where
  "counts_consistent self =
     (distinct (map fst (word_counts self))
      \<and> list_all (\<lambda>x. 1 \<le> snd x) (word_counts self)
      \<and> freq_nodes_ok (freq_nodes self)
      \<and> (\<forall>f. get0 (freq_nodes self) f = words_with (word_counts self) f))"

text \<open>
  The states in which, moreover, the top 5 list is what a rebuild from the counter gives.
\<close>

definition consistent :: "analyzer \<Rightarrow> bool" where
  "consistent self =
     (counts_consistent self \<and> top_five_nodes self = build_initial_top5 (word_counts self))"

text \<open>
  The invariant of the loop over \<open>changed_words\<close>. \<open>counts\<close> is the counter after the
  batch, \<open>unvisited\<close> the changed words the loop has not visited yet. The working list
  is ranked, has each word once and at most 5 entries; the entry of an unvisited word is
  stale (its frequency is below the word's count), every other entry is an item of the
  counter; and a word of the counter that is neither unvisited nor in the list ranks
  after all of a full list.
\<close>

definition top5_inv :: "(string \<times> int) list \<Rightarrow> string set \<Rightarrow> top_five_node list \<Rightarrow> bool" where
  "top5_inv counts unvisited current_top5 =
     (sorted_wrt ranks_before current_top5
      \<and> distinct (map fst current_top5)
      \<and> length current_top5 \<le> 5
      \<and> (\<forall>x\<in>set current_top5.
            if fst x \<in> unvisited then snd x < get0 counts (fst x) else x \<in> set counts)
      \<and> (\<forall>x\<in>set counts. fst x \<notin> unvisited \<longrightarrow> fst x \<notin> fst ` set current_top5 \<longrightarrow>
            length current_top5 = 5 \<and> (\<forall>y\<in>set current_top5. ranks_before y x)))"

section \<open>Tokenization: facts\<close>

lemma split_comma_nonempty: "split_comma s \<noteq> []"
proof (cases s)
  case Nil
  then show ?thesis by simp
next
  case (Cons c cs)
  then show ?thesis by (cases "split_comma cs") simp_all
qed

lemma split_comma_chars:
  "p \<in> set (split_comma s) \<Longrightarrow> x \<in> set p \<Longrightarrow> x \<in> set s \<and> x \<noteq> CHR '',''"
proof (induction s arbitrary: p)
  case Nil
  then show ?case by simp
next
  case (Cons c cs)
  obtain q qs where q: "split_comma cs = q # qs"
    using split_comma_nonempty[of cs] by (cases "split_comma cs") simp_all
  show ?case
  proof (cases "c = CHR '',''")
    case True
    with Cons.prems have "p \<in> set (split_comma cs)" by auto
    from Cons.IH[OF this Cons.prems(2)] show ?thesis by simp
  next
    case False
    with Cons.prems(1) q have "p = c # q \<or> p \<in> set qs" by simp
    then show ?thesis
    proof
      assume "p = c # q"
      with Cons.prems(2) have "x = c \<or> x \<in> set q" by simp
      then show ?thesis
      proof
        assume "x = c" with False show ?thesis by simp
      next
        assume xq: "x \<in> set q"
        have "q \<in> set (split_comma cs)" by (simp add: q)
        from Cons.IH[OF this xq] show ?thesis by simp
      qed
    next
      assume "p \<in> set qs"
      then have "p \<in> set (split_comma cs)" by (simp add: q)
      from Cons.IH[OF this Cons.prems(2)] show ?thesis by simp
    qed
  qed
qed

lemma strip_blank:
  assumes "\<forall>c\<in>set p. is_space c"
  shows "strip p = []"
proof -
  have e: "dropWhile is_space p = []"
    using assms by (simp only: dropWhile_eq_Nil_conv)
  show ?thesis unfolding strip_def e by simp
qed

lemma strip_set: "x \<in> set (strip p) \<Longrightarrow> x \<in> set p"
proof -
  assume "x \<in> set (strip p)"
  then have "x \<in> set (dropWhile is_space (rev (dropWhile is_space p)))"
    by (simp add: strip_def)
  then have "x \<in> set (rev (dropWhile is_space p))" by (rule set_dropWhileD)
  then have "x \<in> set (dropWhile is_space p)" by simp
  then show ?thesis by (rule set_dropWhileD)
qed

lemma strip_hd: "strip p \<noteq> [] \<Longrightarrow> \<not> is_space (hd (strip p))"
proof -
  assume a: "strip p \<noteq> []"
  let ?q = "dropWhile is_space p"
  let ?r = "dropWhile is_space (rev ?q)"
  from a have r: "?r \<noteq> []" by (simp add: strip_def)
  have q: "?q \<noteq> []"
    using a unfolding strip_def by (cases ?q) simp_all
  have "\<not> is_space (hd ?q)" using q by (simp add: hd_dropWhile)
  moreover have "hd (rev ?r) = hd ?q"
  proof -
    have "rev ?q = takeWhile is_space (rev ?q) @ ?r" by simp
    then have "rev (rev ?q) = rev (takeWhile is_space (rev ?q) @ ?r)" by (rule arg_cong)
    then have "?q = rev ?r @ rev (takeWhile is_space (rev ?q))" by (simp only: rev_append rev_rev_ident)
    then have "hd ?q = hd (rev ?r @ rev (takeWhile is_space (rev ?q)))" by (rule arg_cong)
    also have "\<dots> = hd (rev ?r)"
      by (simp only: hd_append rev_is_Nil_conv r if_False)
    finally show ?thesis by simp
  qed
  ultimately show ?thesis by (simp add: strip_def)
qed

lemma strip_last: "strip p \<noteq> [] \<Longrightarrow> \<not> is_space (last (strip p))"
proof -
  assume a: "strip p \<noteq> []"
  let ?r = "dropWhile is_space (rev (dropWhile is_space p))"
  from a have r: "?r \<noteq> []" by (simp add: strip_def)
  then have "\<not> is_space (hd ?r)" by (rule hd_dropWhile)
  moreover have "last (strip p) = hd ?r" using r by (simp add: strip_def last_rev)
  ultimately show ?thesis by simp
qed

lemma tokenize_blank:
  assumes "\<forall>c\<in>set s. c = CHR '','' \<or> is_space c"
  shows "tokenize s = []"
proof -
  have "strip p = []" if "p \<in> set (split_comma s)" for p
  proof (rule strip_blank, rule ballI)
    fix c assume "c \<in> set p"
    from split_comma_chars[OF that this] assms show "is_space c" by blast
  qed
  then show ?thesis by (simp add: tokenize_def filter_empty_conv)
qed

lemma split_comma_no_comma: "CHR '','' \<notin> set s \<Longrightarrow> split_comma s = [s]"
proof (induction s)
  case Nil
  then show ?case by simp
next
  case (Cons c cs)
  then have "split_comma cs = [cs]" and "c \<noteq> CHR '',''" by auto
  then show ?case by simp
qed

lemma lower_char_code:
  "of_char (lower_char c) =
     (let n = (of_char c :: nat)
      in if (65 \<le> n \<and> n \<le> 90) \<or> (192 \<le> n \<and> n \<le> 222 \<and> n \<noteq> 215) then n + 32 else n)"
  by (simp add: lower_char_def Let_def)

lemma lower_char_not_space: "\<not> is_space c \<Longrightarrow> \<not> is_space (lower_char c)"
  unfolding is_space_def Let_def lower_char_code by (simp split: if_splits)

lemma lower_char_idem: "lower_char (lower_char c) = lower_char c"
proof -
  have "(of_char (lower_char (lower_char c)) :: nat) = of_char (lower_char c)"
    unfolding lower_char_code[of "lower_char c"] unfolding lower_char_code Let_def by simp
  then show ?thesis by (simp only: of_char_eq_iff)
qed

lemma lower_char_comma: "lower_char c = CHR '','' \<Longrightarrow> c = CHR '',''"
proof -
  assume a: "lower_char c = CHR '',''"
  have "(of_char (lower_char c) :: nat) = 44" by (simp add: a)
  then have "(of_char c :: nat) = 44"
    unfolding lower_char_code Let_def by (simp split: if_splits)
  then have "(of_char c :: nat) = of_char CHR '',''" by simp
  then show ?thesis by (simp only: of_char_eq_iff)
qed

lemma tokenize_token:
  assumes "t \<in> set (tokenize s)"
  shows "t \<noteq> [] \<and> \<not> is_space (hd t) \<and> \<not> is_space (last t) \<and> CHR '','' \<notin> set t \<and> lower t = t"
proof -
  from assms obtain p where p: "p \<in> set (split_comma s)" "strip p \<noteq> []" "t = lower (strip p)"
    unfolding tokenize_def by auto
  have t: "t = map lower_char (strip p)" by (simp add: p(3) lower_def)
  have nc: "CHR '','' \<notin> set t"
  proof
    assume "CHR '','' \<in> set t"
    then obtain x where x: "x \<in> set (strip p)" "lower_char x = CHR '',''"
      unfolding t by auto
    from lower_char_comma[OF x(2)] x(1) have "CHR '','' \<in> set (strip p)" by simp
    then have "CHR '','' \<in> set p" by (rule strip_set)
    from split_comma_chars[OF p(1) this] show False by simp
  qed
  have h: "\<not> is_space (hd t)"
    unfolding t using strip_hd[OF p(2)] p(2) by (simp add: hd_map lower_char_not_space)
  have l: "\<not> is_space (last t)"
    unfolding t using strip_last[OF p(2)] p(2) by (simp add: last_map lower_char_not_space)
  have i: "lower t = t"
    unfolding t lower_def by (simp add: lower_char_idem)
  have n: "t \<noteq> []" unfolding t using p(2) by simp
  from n h l nc i show ?thesis by blast
qed

lemma add_words_no_tokens: "tokenize s = [] \<Longrightarrow> add_words_traced iter self s = (None, self)"
  by (simp add: add_words_traced_def)

lemma one_token_fold: "count_word ([], [], [], 0) t = ([(t, 1)], [(1, 1)], [t], 1)"
  by (simp add: count_word_def get0_def Let_def)

lemma one_token_nodes: "update_frequency_counts [] [(1, 1)] = [(1, 1)]"
  by (simp add: update_frequency_counts_def apply_change_def Let_def)

lemma one_token_top: "update_top_five_incremental [(t, 1)] [] ws = (Full_rebuild, [(t, 1)])"
  by (simp add: update_top_five_incremental_def build_initial_top5_def Let_def)

lemma one_token_add:
  assumes "tokenize s = [t]"
  shows "add_words_traced iter init s =
    (Some Full_rebuild,
     \<lparr>word_counts = [(t, 1)], top_five_nodes = [(t, 1)], freq_nodes = [(1, 1)], total_words = 1\<rparr>)"
  unfolding add_words_traced_def
  by (simp add: assms init_def one_token_fold one_token_nodes one_token_top Let_def)

lemma split_comma_append:
  "split_comma (a @ CHR '','' # b) = split_comma a @ split_comma b"
proof (induction a)
  case Nil
  show ?case by simp
next
  case (Cons c cs)
  obtain q qs where q: "split_comma cs = q # qs"
    using split_comma_nonempty[of cs] by (cases "split_comma cs") simp_all
  show ?case
  proof (cases "c = CHR '',''")
    case True
    then show ?thesis by (simp add: Cons.IH)
  next
    case False
    then show ?thesis by (simp add: Cons.IH q)
  qed
qed

lemma tokenize_append:
  "tokenize (a @ CHR '','' # b) = tokenize a @ tokenize b"
  by (simp add: tokenize_def split_comma_append)

lemma tokenize_piece:
  "CHR '','' \<notin> set p \<Longrightarrow> tokenize p = (if strip p = [] then [] else [lower (strip p)])"
  by (simp add: tokenize_def split_comma_no_comma)

lemma strip_decompose:
  "\<exists>l r. p = l @ strip p @ r \<and> (\<forall>c\<in>set l. is_space c) \<and> (\<forall>c\<in>set r. is_space c)"
proof -
  let ?l = "takeWhile is_space p"
  let ?q = "dropWhile is_space p"
  let ?r = "rev (takeWhile is_space (rev ?q))"
  have "rev ?q = takeWhile is_space (rev ?q) @ dropWhile is_space (rev ?q)" by simp
  then have "rev (rev ?q) = rev (takeWhile is_space (rev ?q) @ dropWhile is_space (rev ?q))"
    by (rule arg_cong)
  then have q: "?q = strip p @ ?r"
    by (simp only: rev_append rev_rev_ident strip_def)
  have "p = ?l @ ?q" by simp
  then have p: "p = ?l @ strip p @ ?r" using q by simp
  have l: "\<forall>c\<in>set ?l. is_space c" by (auto dest: set_takeWhileD)
  have r: "\<forall>c\<in>set ?r. is_space c" by (auto dest: set_takeWhileD)
  from p l r show ?thesis by blast
qed

lemma lower_char_space: "is_space c \<Longrightarrow> lower_char c = c"
proof -
  assume a: "is_space c"
  have "(of_char (lower_char c) :: nat) = of_char c"
    using a unfolding lower_char_code is_space_def Let_def by auto
  then show ?thesis by (simp only: of_char_eq_iff)
qed

lemma lower_keeps_space:
  "length (lower q) = length q
   \<and> (\<forall>i<length q. if is_space (q ! i) then lower q ! i = q ! i else \<not> is_space (lower q ! i))"
  by (simp add: lower_def lower_char_space lower_char_not_space)

section \<open>The frequency count list: facts\<close>

lemma get0_Nil: "get0 [] k = 0"
  by (simp add: get0_def)

lemma get0_Cons: "get0 (x # xs) k = (if fst x = k then snd x else get0 xs k)"
  by (cases x) (simp add: get0_def)

lemma get0_update: "get0 (AList.update k v d) k' = (if k' = k then v else get0 d k')"
  by (simp add: get0_def update_conv')

lemma get0_absent: "k \<notin> fst ` set d \<Longrightarrow> get0 d k = 0"
  by (simp add: get0_def map_of_eq_None_iff[THEN iffD2])

lemma get0_present: "distinct (map fst d) \<Longrightarrow> (k, v) \<in> set d \<Longrightarrow> get0 d k = v"
  by (simp add: get0_def)

lemma find_None: "find_frequency_node nodes f = None \<Longrightarrow> f \<notin> fst ` set nodes"
  by (induction nodes) (auto split: if_splits)

lemma find_Some:
  "find_frequency_node nodes f = Some i \<Longrightarrow> i < length nodes \<and> fst (nodes ! i) = f"
proof (induction nodes arbitrary: i)
  case Nil
  then show ?case by simp
next
  case (Cons n ns)
  show ?case
  proof (cases "fst n = f")
    case True
    with Cons.prems show ?thesis by simp
  next
    case False
    with Cons.prems obtain j where j: "find_frequency_node ns f = Some j" "i = Suc j"
      by auto
    from Cons.IH[OF j(1)] j(2) show ?thesis by simp
  qed
qed

lemma get0_list_update:
  "distinct (map fst nodes) \<Longrightarrow> i < length nodes \<Longrightarrow>
   get0 (nodes[i := (fst (nodes ! i), c)]) g = (if g = fst (nodes ! i) then c else get0 nodes g)"
proof (induction nodes arbitrary: i)
  case Nil
  then show ?case by simp
next
  case (Cons n ns)
  show ?case
  proof (cases i)
    case 0
    then show ?thesis by (simp add: get0_Cons)
  next
    case (Suc j)
    with Cons.prems have j: "j < length ns" and d: "distinct (map fst ns)"
      and nn: "fst n \<notin> fst ` set ns" by simp_all
    have "fst (ns ! j) \<in> fst ` set ns" using j by simp
    with nn have ne: "fst n \<noteq> fst (ns ! j)" by metis
    show ?thesis using Cons.IH[OF d j] ne by (auto simp: Suc get0_Cons)
  qed
qed

lemma keys_list_update:
  "i < length nodes \<Longrightarrow> map fst (nodes[i := (fst (nodes ! i), c)]) = map fst nodes"
  by (simp add: map_update list_update_same_conv)

lemma set_list_update_counts:
  assumes "i < length nodes" "n \<in> set (nodes[i := (fst (nodes ! i), c)])"
  shows "n \<in> set nodes \<or> n = (fst (nodes ! i), c)"
  using assms set_update_subset_insert[of nodes i] by blast

lemma get0_remove:
  "distinct (map fst nodes) \<Longrightarrow> i < length nodes \<Longrightarrow>
   get0 (remove_frequency_node nodes i) g = (if g = fst (nodes ! i) then 0 else get0 nodes g)"
proof (induction nodes arbitrary: i)
  case Nil
  then show ?case by simp
next
  case (Cons n ns)
  show ?case
  proof (cases i)
    case 0
    with Cons.prems have "fst n \<notin> fst ` set ns" by simp
    then show ?thesis by (simp add: 0 remove_frequency_node_def get0_Cons get0_absent)
  next
    case (Suc j)
    with Cons.prems have j: "j < length ns" and d: "distinct (map fst ns)"
      and nn: "fst n \<notin> fst ` set ns" by simp_all
    have "fst (ns ! j) \<in> fst ` set ns" using j by simp
    with nn have ne: "fst n \<noteq> fst (ns ! j)" by metis
    show ?thesis using Cons.IH[OF d j] ne
      by (auto simp: Suc get0_Cons remove_frequency_node_def)
  qed
qed

lemma set_remove: "set (remove_frequency_node nodes i) \<subseteq> set nodes"
  unfolding remove_frequency_node_def using set_take_subset set_drop_subset by fastforce

lemma sorted_remove:
  assumes "sorted_wrt (>) (map fst nodes)"
  shows "sorted_wrt (>) (map fst (remove_frequency_node nodes i))"
proof -
  have "sorted_wrt (>) (map fst (take i nodes @ nodes ! i # drop (Suc i) nodes))"
    if "i < length nodes"
    using assms that by (simp only: id_take_nth_drop[symmetric])
  then have "i < length nodes \<Longrightarrow> ?thesis"
    by (auto simp: remove_frequency_node_def sorted_wrt_append)
  moreover have "\<not> i < length nodes \<Longrightarrow> ?thesis"
    using assms by (simp add: remove_frequency_node_def)
  ultimately show ?thesis by blast
qed

lemma set_insert_node:
  "set (insert_frequency_node nodes f c) = insert (f, c) (set nodes)"
  by (induction nodes) auto

lemma get0_insert_node:
  "get0 (insert_frequency_node nodes f c) g = (if g = f then c else get0 nodes g)"
  by (induction nodes) (auto simp: get0_Cons get0_Nil)

lemma sorted_insert_node:
  "sorted_wrt (>) (map fst nodes) \<Longrightarrow> f \<notin> fst ` set nodes \<Longrightarrow>
   sorted_wrt (>) (map fst (insert_frequency_node nodes f c))"
proof (induction nodes)
  case Nil
  then show ?case by simp
next
  case (Cons n ns)
  from Cons.prems have s: "sorted_wrt (>) (map fst ns)" and a: "\<forall>x\<in>set ns. fst x < fst n"
    and ne: "fst n \<noteq> f" and nf: "f \<notin> fst ` set ns" by auto
  show ?case
  proof (cases "fst n > f")
    case True
    have "\<forall>x\<in>set (insert_frequency_node ns f c). fst x < fst n"
      using a True by (auto simp: set_insert_node)
    with Cons.IH[OF s nf] True show ?thesis by simp
  next
    case False
    with ne have lt: "fst n < f" by simp
    with a have "\<forall>x\<in>set ns. fst x < f" by fastforce
    with lt s a False show ?thesis by simp
  qed
qed

lemma sorted_desc_distinct: "sorted_wrt (>) (xs :: int list) \<Longrightarrow> distinct xs"
  by (induction xs) auto

lemma freq_nodes_ok_distinct: "freq_nodes_ok nodes \<Longrightarrow> distinct (map fst nodes)"
  unfolding freq_nodes_ok_def using sorted_desc_distinct by blast

lemma remove_updated:
  "remove_frequency_node (nodes[i := x]) i = remove_frequency_node nodes i"
  by (simp add: remove_frequency_node_def)

lemma freq_nodes_ok_nonneg:
  assumes "freq_nodes_ok nodes"
  shows "0 \<le> get0 nodes f"
proof (cases "map_of nodes f")
  case None
  then show ?thesis by (simp add: get0_def)
next
  case (Some c)
  then have "(f, c) \<in> set nodes" by (rule map_of_SomeD)
  with assms have "0 < c" by (auto simp: freq_nodes_ok_def list_all_iff)
  with Some show ?thesis by (simp add: get0_def)
qed

lemma apply_change_zero: "apply_change nodes (f, 0) = nodes"
  by (simp add: apply_change_def)

lemma apply_change_found:
  assumes "d \<noteq> 0" "find_frequency_node nodes f = Some i"
  shows "apply_change nodes (f, d) =
    (if snd (nodes ! i) + d \<le> 0 then remove_frequency_node nodes i
     else nodes[i := (f, snd (nodes ! i) + d)])"
proof -
  from find_Some[OF assms(2)] have i: "i < length nodes" "fst (nodes ! i) = f" by simp_all
  show ?thesis
    using assms i by (simp add: apply_change_def Let_def remove_updated)
qed

lemma apply_change_absent:
  assumes "d \<noteq> 0" "find_frequency_node nodes f = None"
  shows "apply_change nodes (f, d) = (if d > 0 then insert_frequency_node nodes f d else nodes)"
  using assms by (simp add: apply_change_def Let_def)

lemma apply_change_ok:
  assumes ok: "freq_nodes_ok nodes"
  shows "freq_nodes_ok (apply_change nodes (f, d))"
proof (cases "d = 0")
  case True
  with ok show ?thesis by (simp add: apply_change_zero)
next
  case d: False
  from ok have s: "sorted_wrt (>) (map fst nodes)" and p: "\<forall>n\<in>set nodes. 0 < snd n"
    by (simp_all add: freq_nodes_ok_def list_all_iff)
  show ?thesis
  proof (cases "find_frequency_node nodes f")
    case None
    from find_None[OF None] have nf: "f \<notin> fst ` set nodes" .
    show ?thesis
    proof (cases "d > 0")
      case True
      have "sorted_wrt (>) (map fst (insert_frequency_node nodes f d))"
        using s nf by (rule sorted_insert_node)
      moreover have "\<forall>n\<in>set (insert_frequency_node nodes f d). 0 < snd n"
        using p True by (simp add: set_insert_node)
      ultimately show ?thesis
        using True by (simp add: apply_change_absent[OF d None] freq_nodes_ok_def list_all_iff)
    next
      case False
      with ok show ?thesis by (simp add: apply_change_absent[OF d None])
    qed
  next
    case (Some i)
    from find_Some[OF Some] have i: "i < length nodes" "fst (nodes ! i) = f" by simp_all
    show ?thesis
    proof (cases "snd (nodes ! i) + d \<le> 0")
      case True
      have "sorted_wrt (>) (map fst (remove_frequency_node nodes i))"
        using s by (rule sorted_remove)
      moreover have "\<forall>n\<in>set (remove_frequency_node nodes i). 0 < snd n"
        using p set_remove[of nodes i] by blast
      ultimately show ?thesis
        using True by (simp add: apply_change_found[OF d Some] freq_nodes_ok_def list_all_iff)
    next
      case False
      let ?nodes' = "nodes[i := (f, snd (nodes ! i) + d)]"
      have k: "map fst ?nodes' = map fst nodes"
        using keys_list_update[OF i(1), of "snd (nodes ! i) + d"] i(2) by simp
      have "\<forall>n\<in>set ?nodes'. 0 < snd n"
      proof
        fix n assume "n \<in> set ?nodes'"
        then have "n \<in> insert (f, snd (nodes ! i) + d) (set nodes)"
          using set_update_subset_insert[of nodes i] by blast
        with p False show "0 < snd n" by auto
      qed
      with s k False show ?thesis
        by (simp add: apply_change_found[OF d Some] freq_nodes_ok_def list_all_iff)
    qed
  qed
qed

lemma apply_change_get0:
  assumes ok: "freq_nodes_ok nodes"
  shows "get0 (apply_change nodes (f, d)) g = (if g = f then max 0 (get0 nodes f + d) else get0 nodes g)"
proof (cases "d = 0")
  case True
  with freq_nodes_ok_nonneg[OF ok, of f] show ?thesis by (simp add: apply_change_zero)
next
  case d: False
  have dist: "distinct (map fst nodes)" using ok by (rule freq_nodes_ok_distinct)
  show ?thesis
  proof (cases "find_frequency_node nodes f")
    case None
    from find_None[OF None] have "get0 nodes f = 0" by (rule get0_absent)
    then show ?thesis
      by (simp add: apply_change_absent[OF d None] get0_insert_node)
  next
    case (Some i)
    from find_Some[OF Some] have i: "i < length nodes" "fst (nodes ! i) = f" by simp_all
    have "nodes ! i \<in> set nodes" using i(1) by simp
    then have "(f, snd (nodes ! i)) \<in> set nodes" using i(2) by (metis prod.collapse)
    from get0_present[OF dist this] have g: "get0 nodes f = snd (nodes ! i)" .
    show ?thesis
    proof (cases "snd (nodes ! i) + d \<le> 0")
      case True
      then show ?thesis
        using get0_remove[OF dist i(1), of g] i(2) g
        by (simp add: apply_change_found[OF d Some])
    next
      case False
      then show ?thesis
        using get0_list_update[OF dist i(1), of "snd (nodes ! i) + d" g] i(2) g
        by (simp add: apply_change_found[OF d Some])
    qed
  qed
qed

lemma update_frequency_counts_Nil: "update_frequency_counts nodes [] = nodes"
  by (simp add: update_frequency_counts_def)

lemma update_frequency_counts_Cons:
  "update_frequency_counts nodes (item # changes) =
   update_frequency_counts (apply_change nodes item) changes"
  by (simp add: update_frequency_counts_def)

lemma update_frequency_counts_ok:
  "freq_nodes_ok nodes \<Longrightarrow> freq_nodes_ok (update_frequency_counts nodes changes)"
proof (induction changes arbitrary: nodes)
  case Nil
  then show ?case by (simp add: update_frequency_counts_Nil)
next
  case (Cons item changes)
  obtain f d where item: "item = (f, d)" by (cases item)
  from apply_change_ok[OF Cons.prems, of f d] have "freq_nodes_ok (apply_change nodes item)"
    by (simp add: item)
  from Cons.IH[OF this] show ?case by (simp add: update_frequency_counts_Cons)
qed

lemma update_frequency_counts_get0:
  "freq_nodes_ok nodes \<Longrightarrow> distinct (map fst changes) \<Longrightarrow>
   get0 (update_frequency_counts nodes changes) g = max 0 (get0 nodes g + get0 changes g)"
proof (induction changes arbitrary: nodes)
  case Nil
  with freq_nodes_ok_nonneg[OF Nil.prems(1), of g] show ?case
    by (simp add: update_frequency_counts_Nil get0_Nil)
next
  case (Cons item changes)
  obtain f d where item: "item = (f, d)" by (cases item)
  let ?n1 = "apply_change nodes item"
  have ok1: "freq_nodes_ok ?n1"
    using apply_change_ok[OF Cons.prems(1), of f d] by (simp add: item)
  from Cons.prems(2) have dc: "distinct (map fst changes)" and nf: "f \<notin> fst ` set changes"
    by (simp_all add: item)
  have ih: "get0 (update_frequency_counts ?n1 changes) g = max 0 (get0 ?n1 g + get0 changes g)"
    using Cons.IH[OF ok1 dc] .
  have g1: "get0 ?n1 g = (if g = f then max 0 (get0 nodes f + d) else get0 nodes g)"
    using apply_change_get0[OF Cons.prems(1), of f d g] by (simp add: item)
  show ?case
  proof (cases "g = f")
    case True
    from nf have "get0 changes f = 0" by (rule get0_absent)
    with ih g1 True show ?thesis
      by (simp add: update_frequency_counts_Cons item get0_Cons)
  next
    case False
    with ih g1 show ?thesis
      by (simp add: update_frequency_counts_Cons item get0_Cons)
  qed
qed

lemma words_with_Nil: "words_with [] f = 0"
  by (simp add: words_with_def)

lemma words_with_Cons:
  "words_with (x # xs) f = (if snd x = f then 1 else 0) + words_with xs f"
  by (simp add: words_with_def)

lemma words_with_nonneg: "0 \<le> words_with counts f"
  by (simp add: words_with_def)

lemma words_with_update:
  "words_with (AList.update w v counts) f =
     words_with counts f + (if v = f then 1 else 0)
     - (case map_of counts w of None \<Rightarrow> 0 | Some u \<Rightarrow> if u = f then 1 else 0)"
proof (induction counts)
  case Nil
  then show ?case by (simp add: words_with_Cons words_with_Nil)
next
  case (Cons p ps)
  show ?case
  proof (cases "fst p = w")
    case True
    then show ?thesis by (cases p) (simp add: words_with_Cons)
  next
    case False
    with Cons.IH show ?thesis by (cases p) (simp add: words_with_Cons)
  qed
qed

section \<open>The loop over the words of a batch: facts\<close>

lemma count_word_eq:
  "count_word (counts, changes, changed, t) w =
     (AList.update w (get0 counts w + 1) counts,
      AList.update (get0 counts w + 1)
        (get0 (if get0 counts w > 0
               then AList.update (get0 counts w) (get0 changes (get0 counts w) - 1) changes
               else changes) (get0 counts w + 1) + 1)
        (if get0 counts w > 0
         then AList.update (get0 counts w) (get0 changes (get0 counts w) - 1) changes
         else changes),
      changed @ [w], t + 1)"
  by (simp add: count_word_def Let_def get0_update)

lemma get0_positive:
  assumes "\<forall>x\<in>set counts. 1 \<le> snd x"
  shows "(0 < get0 counts w) = (map_of counts w \<noteq> None)" and "0 \<le> get0 counts w"
proof -
  have "0 < v" if "map_of counts w = Some v" for v
  proof -
    from that have "(w, v) \<in> set counts" by (rule map_of_SomeD)
    with assms show ?thesis by fastforce
  qed
  then show "(0 < get0 counts w) = (map_of counts w \<noteq> None)" and "0 \<le> get0 counts w"
    by (cases "map_of counts w"; simp add: get0_def)+
qed

lemma count_word_step:
  assumes pos: "\<forall>x\<in>set counts. 1 \<le> snd x"
    and cw: "count_word (counts, changes, changed, t) w = (counts', changes', changed', t')"
  shows "counts' = AList.update w (get0 counts w + 1) counts"
    and "changed' = changed @ [w]"
    and "t' = t + 1"
    and "get0 changes' f - get0 changes f = words_with counts' f - words_with counts f"
proof -
  let ?old = "get0 counts w"
  let ?ch1 = "if ?old > 0 then AList.update ?old (get0 changes ?old - 1) changes else changes"
  from cw show c: "counts' = AList.update w (?old + 1) counts"
    and "changed' = changed @ [w]" and "t' = t + 1"
    by (simp_all add: count_word_eq)
  from cw have ch: "changes' = AList.update (?old + 1) (get0 ?ch1 (?old + 1) + 1) ?ch1"
    by (simp add: count_word_eq)
  have g: "get0 changes' f = get0 changes f
      - (if ?old > 0 \<and> f = ?old then 1 else 0) + (if f = ?old + 1 then 1 else 0)"
    unfolding ch by (simp add: get0_update)
  have ww: "words_with counts' f = words_with counts f
      - (if ?old > 0 \<and> f = ?old then 1 else 0) + (if f = ?old + 1 then 1 else 0)"
  proof (cases "map_of counts w")
    case None
    then have "?old = 0" by (simp add: get0_def)
    with None show ?thesis unfolding c by (simp add: words_with_update)
  next
    case (Some u)
    then have u: "?old = u" by (simp add: get0_def)
    from get0_positive(1)[OF pos, of w] Some have "0 < ?old" by simp
    with Some u show ?thesis unfolding c by (simp add: words_with_update)
  qed
  from g ww show "get0 changes' f - get0 changes f = words_with counts' f - words_with counts f"
    by simp
qed

lemma set_alist_update: "set (AList.update k v al) \<subseteq> insert (k, v) (set al)"
  by (induction al) auto

lemma count_word_keeps:
  assumes d: "distinct (map fst counts)" and pos: "\<forall>x\<in>set counts. 1 \<le> snd x"
    and dc: "distinct (map fst changes)"
    and cw: "count_word (counts, changes, changed, t) w = (counts', changes', changed', t')"
  shows "distinct (map fst counts')" and "\<forall>x\<in>set counts'. 1 \<le> snd x"
    and "distinct (map fst changes')"
proof -
  let ?old = "get0 counts w"
  from cw have c: "counts' = AList.update w (?old + 1) counts" by (simp add: count_word_eq)
  show "distinct (map fst counts')" unfolding c using d by (rule distinct_update)
  have "0 \<le> ?old" using get0_positive(2)[OF pos] .
  then have "1 \<le> ?old + 1" by simp
  moreover have "set (AList.update w (?old + 1) counts) \<subseteq> insert (w, ?old + 1) (set counts)"
    by (rule set_alist_update)
  ultimately show "\<forall>x\<in>set counts'. 1 \<le> snd x" unfolding c using pos by auto
  let ?ch1 = "if ?old > 0 then AList.update ?old (get0 changes ?old - 1) changes else changes"
  from cw have ch: "changes' = AList.update (?old + 1) (get0 ?ch1 (?old + 1) + 1) ?ch1"
    by (simp add: count_word_eq)
  have "distinct (map fst ?ch1)" using dc by (simp add: distinct_update)
  then show "distinct (map fst changes')" unfolding ch by (rule distinct_update)
qed

lemma count_words_fold:
  assumes "distinct (map fst counts)" and "\<forall>x\<in>set counts. 1 \<le> snd x"
    and "distinct (map fst changes)"
    and "foldl count_word (counts, changes, changed, t) words = (counts', changes', changed', t')"
  shows "distinct (map fst counts') \<and> (\<forall>x\<in>set counts'. 1 \<le> snd x)
    \<and> distinct (map fst changes')
    \<and> changed' = changed @ words
    \<and> t' = t + int (length words)
    \<and> (\<forall>f. get0 changes' f - get0 changes f = words_with counts' f - words_with counts f)
    \<and> (\<forall>w. get0 counts' w = get0 counts w + int (count_list words w))
    \<and> fst ` set counts' = fst ` set counts \<union> set words"
  using assms
proof (induction words arbitrary: counts changes changed t)
  case Nil
  then show ?case by simp
next
  case (Cons w ws)
  obtain c1 ch1 cd1 t1 where s1: "count_word (counts, changes, changed, t) w = (c1, ch1, cd1, t1)"
    by (metis prod_cases4)
  from Cons.prems(4) have f: "foldl count_word (c1, ch1, cd1, t1) ws = (counts', changes', changed', t')"
    by (simp add: s1)
  note k = count_word_keeps[OF Cons.prems(1,2,3) s1]
  note st = count_word_step[OF Cons.prems(2) s1]
  from Cons.IH[OF k f]
  have ih1: "distinct (map fst counts')" "\<forall>x\<in>set counts'. 1 \<le> snd x" "distinct (map fst changes')"
    and ih2: "changed' = cd1 @ ws" "t' = t1 + int (length ws)"
    and ih3: "\<forall>f. get0 changes' f - get0 ch1 f = words_with counts' f - words_with c1 f"
    and ih4: "\<forall>w. get0 counts' w = get0 c1 w + int (count_list ws w)"
    and ih5: "fst ` set counts' = fst ` set c1 \<union> set ws"
    by blast+
  have a: "changed' = changed @ w # ws" using ih2(1) st(2) by simp
  have b: "t' = t + int (length (w # ws))" using ih2(2) st(3) by simp
  have c: "\<forall>f. get0 changes' f - get0 changes f = words_with counts' f - words_with counts f"
  proof
    fix f
    from ih3 have "get0 changes' f - get0 ch1 f = words_with counts' f - words_with c1 f" ..
    with st(4)[of f] show "get0 changes' f - get0 changes f = words_with counts' f - words_with counts f"
      by simp
  qed
  have d: "\<forall>v. get0 counts' v = get0 counts v + int (count_list (w # ws) v)"
  proof
    fix v
    from ih4 have "get0 counts' v = get0 c1 v + int (count_list ws v)" ..
    then show "get0 counts' v = get0 counts v + int (count_list (w # ws) v)"
      unfolding st(1) by (simp add: get0_update)
  qed
  have e: "fst ` set counts' = fst ` set counts \<union> set (w # ws)"
    unfolding ih5 st(1) by (simp add: dom_update)
  from ih1 a b c d e show ?case by blast
qed

lemma fold_count_map:
  "foldl count_word (counts, changes, changed, t) words = (counts', changes', changed', t')
   \<Longrightarrow> map_of counts' w =
       (if w \<in> set words then Some (get0 counts w + int (count_list words w))
        else map_of counts w)"
proof (induction words arbitrary: counts changes changed t)
  case Nil
  then show ?case by simp
next
  case (Cons x xs)
  let ?c1 = "AList.update x (get0 counts x + 1) counts"
  obtain ch1 cd1 t1 where s1: "count_word (counts, changes, changed, t) x = (?c1, ch1, cd1, t1)"
    by (simp add: count_word_eq)
  from Cons.prems have f: "foldl count_word (?c1, ch1, cd1, t1) xs = (counts', changes', changed', t')"
    by (simp add: s1)
  note ih = Cons.IH[OF f]
  have g: "get0 ?c1 w = (if w = x then get0 counts x + 1 else get0 counts w)"
    by (rule get0_update)
  have m: "map_of ?c1 w = (if w = x then Some (get0 counts x + 1) else map_of counts w)"
    by (simp add: update_conv')
  show ?case
  proof (cases "w \<in> set xs")
    case True
    then show ?thesis unfolding ih g by simp
  next
    case False
    then have z: "count_list xs w = 0" by simp
    show ?thesis
    proof (cases "w = x")
      case True
      with z False have "count_list xs x = 0" and "x \<notin> set xs" by simp_all
      then show ?thesis unfolding ih m using True by simp
    next
      case ne: False
      then show ?thesis unfolding ih m using False by simp
    qed
  qed
qed

lemma add_words_frequencies:
  "get_all_frequencies (add_words iter self s) w =
     (if w \<in> set (tokenize s)
      then Some (get0 (word_counts self) w + int (count_list (tokenize s) w))
      else get_all_frequencies self w)"
proof (cases "tokenize s = []")
  case True
  then show ?thesis by (simp add: add_words_def add_words_traced_def)
next
  case ne: False
  obtain counts changes changed t where
    f: "foldl count_word (word_counts self, [], [], total_words self) (tokenize s)
        = (counts, changes, changed, t)"
    by (metis prod_cases4)
  have "word_counts (add_words iter self s) = counts"
    using ne f by (simp add: add_words_def add_words_traced_def Let_def split: prod.splits)
  then show ?thesis
    using fold_count_map[OF f, of w] by (simp add: get_all_frequencies_def)
qed

section \<open>The top 5 list: facts\<close>

lemma rank_key_less: "(rank_key x < rank_key y) = ranks_before x y"
  by (auto simp: rank_key_def ranks_before_def less_prod_def)

lemma rank_key_inj: "(rank_key x = rank_key y) = (x = y)"
  by (auto simp: rank_key_def prod_eq_iff)

lemma rank_key_le: "(rank_key x \<le> rank_key y) = (ranks_before x y \<or> x = y)"
  using rank_key_less[of x y] rank_key_inj[of x y] by (auto simp: le_less)

lemma ranks_before_trans: "ranks_before x y \<Longrightarrow> ranks_before y z \<Longrightarrow> ranks_before x z"
  unfolding rank_key_less[symmetric] by (rule less_trans)

lemma ranks_before_irrefl: "\<not> ranks_before x x"
  unfolding rank_key_less[symmetric] by simp

lemma ranks_before_total: "x \<noteq> y \<Longrightarrow> ranks_before x y \<or> ranks_before y x"
  unfolding rank_key_less[symmetric] using rank_key_inj[of x y] by auto

lemma ranked_iff:
  "sorted_wrt ranks_before xs = (sorted (map rank_key xs) \<and> distinct xs)"
proof -
  have "sorted_wrt ranks_before xs = sorted_wrt (<) (map rank_key xs)"
    by (simp add: sorted_wrt_map rank_key_less)
  also have "\<dots> = (sorted (map rank_key xs) \<and> distinct (map rank_key xs))"
    by (rule strict_sorted_iff)
  also have "distinct (map rank_key xs) = distinct xs"
    by (simp add: distinct_map inj_on_def rank_key_inj)
  finally show ?thesis .
qed

lemma ranked_sort: "distinct xs \<Longrightarrow> sorted_wrt ranks_before (sort_key rank_key xs)"
  by (simp add: ranked_iff)

lemma ranked_unique:
  assumes "sorted_wrt ranks_before xs" "sorted_wrt ranks_before ys" "set xs = set ys"
  shows "xs = ys"
proof (rule map_sorted_distinct_set_unique[where f = rank_key])
  show "inj_on rank_key (set xs \<union> set ys)" by (simp add: inj_on_def rank_key_inj)
  from assms(1) show "sorted (map rank_key xs)" "distinct (map rank_key xs)"
    by (simp_all add: ranked_iff distinct_map inj_on_def rank_key_inj)
  from assms(2) show "sorted (map rank_key ys)" "distinct (map rank_key ys)"
    by (simp_all add: ranked_iff distinct_map inj_on_def rank_key_inj)
  show "set xs = set ys" by (rule assms(3))
qed

lemma distinct_keys_distinct: "distinct (map fst xs) \<Longrightarrow> distinct xs"
  by (simp add: distinct_map)

lemma top5_props:
  assumes dV: "distinct V"
  shows "sorted_wrt ranks_before (build_initial_top5 V)"
    and "set (build_initial_top5 V) \<subseteq> set V"
    and "length (build_initial_top5 V) = min 5 (length V)"
    and "x \<in> set V \<Longrightarrow> x \<notin> set (build_initial_top5 V) \<Longrightarrow>
         length (build_initial_top5 V) = 5 \<and> (\<forall>y\<in>set (build_initial_top5 V). ranks_before y x)"
proof -
  let ?S = "sort_key rank_key V"
  have S: "sorted_wrt ranks_before ?S" using dV by (rule ranked_sort)
  have split: "take 5 ?S @ drop 5 ?S = ?S" by simp
  show "sorted_wrt ranks_before (build_initial_top5 V)"
    unfolding build_initial_top5_def using S by (rule sorted_wrt_take)
  show "set (build_initial_top5 V) \<subseteq> set V"
    unfolding build_initial_top5_def using set_take_subset[of 5 ?S] by simp
  show "length (build_initial_top5 V) = min 5 (length V)"
    unfolding build_initial_top5_def by simp
  assume x: "x \<in> set V" "x \<notin> set (build_initial_top5 V)"
  have "set ?S = set (take 5 ?S) \<union> set (drop 5 ?S)"
    by (simp only: set_append[symmetric] split)
  with x have xd: "x \<in> set (drop 5 ?S)" by (simp add: build_initial_top5_def)
  then have "drop 5 ?S \<noteq> []" by auto
  then have len: "length (build_initial_top5 V) = 5"
    by (simp add: build_initial_top5_def)
  have "sorted_wrt ranks_before (take 5 ?S @ drop 5 ?S)" using S by (simp only: split)
  then have "\<forall>y\<in>set (take 5 ?S). \<forall>z\<in>set (drop 5 ?S). ranks_before y z"
    unfolding sorted_wrt_append by blast
  with xd have "\<forall>y\<in>set (build_initial_top5 V). ranks_before y x"
    by (simp add: build_initial_top5_def)
  with len show "length (build_initial_top5 V) = 5 \<and> (\<forall>y\<in>set (build_initial_top5 V). ranks_before y x)"
    by simp
qed

lemma top5_eqI:
  assumes L: "sorted_wrt ranks_before L" and sub: "set L \<subseteq> set V" and dV: "distinct V"
    and len: "length L \<le> 5" and full: "length L = 5 \<or> set V \<subseteq> set L"
    and below: "\<forall>x\<in>set V. x \<notin> set L \<longrightarrow> (\<forall>y\<in>set L. ranks_before y x)"
  shows "build_initial_top5 V = L"
proof -
  let ?R = "sort_key rank_key (filter (\<lambda>x. x \<notin> set L) V)"
  have R: "sorted_wrt ranks_before ?R" using dV by (simp add: ranked_sort)
  have a: "sorted_wrt ranks_before (L @ ?R)"
    using L R below by (auto simp: sorted_wrt_append)
  have b: "sorted_wrt ranks_before (sort_key rank_key V)" using dV by (rule ranked_sort)
  have c: "set (sort_key rank_key V) = set (L @ ?R)" using sub by auto
  have eq: "sort_key rank_key V = L @ ?R" using b a c by (rule ranked_unique)
  show ?thesis
  proof (cases "length L = 5")
    case True
    then show ?thesis by (simp add: build_initial_top5_def eq)
  next
    case False
    with full have "set V \<subseteq> set L" by simp
    then have "filter (\<lambda>x. x \<notin> set L) V = []" by (auto simp: filter_empty_conv)
    with len show ?thesis by (simp add: build_initial_top5_def eq)
  qed
qed

lemma ranked_last:
  assumes "sorted_wrt ranks_before L" "length L = 5" "y \<in> set L"
  shows "y = L ! 4 \<or> ranks_before y (L ! 4)"
proof -
  from assms(3) obtain i where i: "i < length L" "L ! i = y" by (auto simp: in_set_conv_nth)
  show ?thesis
  proof (cases "i = 4")
    case True
    with i show ?thesis by simp
  next
    case False
    with i assms(2) have "i < 4" by simp
    with assms(1,2) have "ranks_before (L ! i) (L ! 4)"
      by (simp add: sorted_wrt_iff_nth_less)
    with i show ?thesis by simp
  qed
qed

lemma should_be_iff:
  assumes "length L = 5"
  shows "should_be_in_top5 w f L = ranks_before (w, f) (L ! 4)"
  using assms by (auto simp: should_be_in_top5_def ranks_before_def)

lemma should_be_short: "length L < 5 \<Longrightarrow> should_be_in_top5 w f L"
  by (simp add: should_be_in_top5_def)

lemma keys_unique:
  assumes "distinct (map fst V)" "x \<in> set V" "y \<in> set V" "fst x = fst y"
  shows "x = y"
  using assms by (metis eq_key_imp_eq_value prod.collapse)

lemma reconcile_skip:
  assumes dV: "distinct (map fst V)" and inv: "top5_inv V U L" and wU: "w \<in> U"
    and wV: "(w, f) \<in> set V" and ns: "\<not> should_be_in_top5 w f L"
  shows "top5_inv V (U - {w}) L"
proof -
  from inv have s: "sorted_wrt ranks_before L" and dk: "distinct (map fst L)"
    and le: "length L \<le> 5"
    and i2: "\<forall>x\<in>set L. if fst x \<in> U then snd x < get0 V (fst x) else x \<in> set V"
    and i3: "\<forall>x\<in>set V. fst x \<notin> U \<longrightarrow> fst x \<notin> fst ` set L \<longrightarrow>
               length L = 5 \<and> (\<forall>y\<in>set L. ranks_before y x)"
    unfolding top5_inv_def by blast+
  have gw: "get0 V w = f" using dV wV by (rule get0_present)
  from ns le have len5: "length L = 5"
    using should_be_short[of L w f] by linarith
  from ns have nrb: "\<not> ranks_before (w, f) (L ! 4)" by (simp add: should_be_iff[OF len5])
  have last: "y = L ! 4 \<or> ranks_before y (L ! 4)" if "y \<in> set L" for y
    using s len5 that by (rule ranked_last)
  have wnot: "w \<notin> fst ` set L"
  proof
    assume "w \<in> fst ` set L"
    then obtain y where y: "y \<in> set L" "fst y = w" by auto
    from i2 y wU gw have "snd y < f" by auto
    then have "ranks_before (w, f) y" by (simp add: ranks_before_def)
    with last[OF y(1)] have "ranks_before (w, f) (L ! 4)"
      using ranks_before_trans by blast
    with nrb show False ..
  qed
  have z: "L ! 4 \<in> set L" using len5 by simp
  have i2': "\<forall>x\<in>set L. if fst x \<in> U - {w} then snd x < get0 V (fst x) else x \<in> set V"
  proof
    fix x assume x: "x \<in> set L"
    with wnot have "fst x \<noteq> w" by auto
    with i2 x show "if fst x \<in> U - {w} then snd x < get0 V (fst x) else x \<in> set V" by auto
  qed
  have i3': "\<forall>x\<in>set V. fst x \<notin> U - {w} \<longrightarrow> fst x \<notin> fst ` set L \<longrightarrow>
               length L = 5 \<and> (\<forall>y\<in>set L. ranks_before y x)"
  proof (intro ballI impI)
    fix x assume x: "x \<in> set V" "fst x \<notin> U - {w}" "fst x \<notin> fst ` set L"
    show "length L = 5 \<and> (\<forall>y\<in>set L. ranks_before y x)"
    proof (cases "fst x \<in> U")
      case False
      with i3 x show ?thesis by blast
    next
      case True
      with x(2) have "fst x = w" by simp
      with keys_unique[OF dV x(1) wV] have xe: "x = (w, f)" by simp
      from z wnot have "L ! 4 \<noteq> (w, f)" by force
      with nrb ranks_before_total have zb: "ranks_before (L ! 4) (w, f)" by blast
      have "\<forall>y\<in>set L. ranks_before y (w, f)"
      proof
        fix y assume "y \<in> set L"
        from last[OF this] zb show "ranks_before y (w, f)"
          using ranks_before_trans by blast
      qed
      with len5 xe show ?thesis by simp
    qed
  qed
  from s dk le i2' i3' show ?thesis unfolding top5_inv_def by blast
qed

lemma insert_or_update_as_build:
  "insert_or_update_in_top5 w f L = build_initial_top5 (filter (\<lambda>x. fst x \<noteq> w) L @ [(w, f)])"
  by (simp add: insert_or_update_in_top5_def build_initial_top5_def)

lemma build_keys_distinct:
  assumes "distinct (map fst M)"
  shows "distinct (map fst (build_initial_top5 M))"
proof -
  have "mset (map fst (sort_key rank_key M)) = mset (map fst M)" by simp
  then have "distinct (map fst (sort_key rank_key M))"
    using assms mset_eq_imp_distinct_iff by blast
  then have "distinct (take 5 (map fst (sort_key rank_key M)))" by (rule distinct_take)
  then show ?thesis by (simp add: build_initial_top5_def take_map)
qed

lemma distinct_filter_key:
  "distinct (map g xs) \<Longrightarrow> length (filter (\<lambda>x. g x = a) xs) \<le> 1"
proof (induction xs)
  case Nil
  then show ?case by simp
next
  case (Cons x xs)
  have "filter (\<lambda>y. g y = a) xs = []" if "g x = a"
  proof -
    from Cons.prems that have "a \<notin> g ` set xs" by simp
    then have "\<forall>y\<in>set xs. g y \<noteq> a" by blast
    then show ?thesis by (simp add: filter_empty_conv)
  qed
  with Cons show ?case by (cases "g x = a") simp_all
qed

lemma reconcile_insert:
  assumes dV: "distinct (map fst V)" and inv: "top5_inv V U L" and wU: "w \<in> U"
    and wV: "(w, f) \<in> set V" and sb: "should_be_in_top5 w f L"
  shows "top5_inv V (U - {w}) (insert_or_update_in_top5 w f L)"
proof -
  from inv have s: "sorted_wrt ranks_before L" and dk: "distinct (map fst L)"
    and le: "length L \<le> 5"
    and i2: "\<forall>x\<in>set L. if fst x \<in> U then snd x < get0 V (fst x) else x \<in> set V"
    and i3: "\<forall>x\<in>set V. fst x \<notin> U \<longrightarrow> fst x \<notin> fst ` set L \<longrightarrow>
               length L = 5 \<and> (\<forall>y\<in>set L. ranks_before y x)"
    unfolding top5_inv_def by blast+
  let ?M = "filter (\<lambda>x. fst x \<noteq> w) L @ [(w, f)]"
  let ?L' = "build_initial_top5 ?M"
  have setM: "set ?M = insert (w, f) {x \<in> set L. fst x \<noteq> w}" by auto
  have dkM: "distinct (map fst ?M)"
    using dk by (auto simp: distinct_map_filter)
  then have dM: "distinct ?M" by (rule distinct_keys_distinct)
  note p = top5_props[OF dM]
  have sub: "set ?L' \<subseteq> insert (w, f) {x \<in> set L. fst x \<noteq> w}"
    using p(2) setM by simp
  have lenM: "length ?L' = min 5 (length ?M)" by (rule p(3))
  have le': "length ?L' \<le> 5" using lenM by simp
  have dk': "distinct (map fst ?L')" using dkM by (rule build_keys_distinct)
  have i2': "\<forall>x\<in>set ?L'. if fst x \<in> U - {w} then snd x < get0 V (fst x) else x \<in> set V"
  proof
    fix x assume "x \<in> set ?L'"
    with sub have "x = (w, f) \<or> (x \<in> set L \<and> fst x \<noteq> w)" by auto
    then show "if fst x \<in> U - {w} then snd x < get0 V (fst x) else x \<in> set V"
    proof
      assume "x = (w, f)"
      with wV show ?thesis by simp
    next
      assume "x \<in> set L \<and> fst x \<noteq> w"
      with i2 show ?thesis by auto
    qed
  qed
  have i3': "\<forall>x\<in>set V. fst x \<notin> U - {w} \<longrightarrow> fst x \<notin> fst ` set ?L' \<longrightarrow>
               length ?L' = 5 \<and> (\<forall>y\<in>set ?L'. ranks_before y x)"
  proof (intro ballI impI)
    fix x assume x: "x \<in> set V" "fst x \<notin> U - {w}" "fst x \<notin> fst ` set ?L'"
    from x(3) have xn: "x \<notin> set ?L'" by force
    show "length ?L' = 5 \<and> (\<forall>y\<in>set ?L'. ranks_before y x)"
    proof (cases "fst x \<in> fst ` set ?M")
      case True
      then obtain y where y: "y \<in> set ?M" "fst y = fst x" by force
      have "y \<in> set V"
      proof (cases "y = (w, f)")
        case True
        with wV show ?thesis by simp
      next
        case False
        with y(1) have yl: "y \<in> set L" "fst y \<noteq> w" by auto
        with y(2) x(2) have "fst y \<notin> U" by auto
        with i2 yl(1) show ?thesis by auto
      qed
      from keys_unique[OF dV this x(1) y(2)] y(1) have "x \<in> set ?M" by simp
      from p(4)[OF this xn] show ?thesis .
    next
      case False
      then have xw: "fst x \<noteq> w" by force
      have xl: "fst x \<notin> fst ` set L"
      proof
        assume "fst x \<in> fst ` set L"
        then obtain y where "y \<in> set L" "fst y = fst x" by auto
        with xw have "y \<in> set ?M" by simp
        with \<open>fst y = fst x\<close> have "fst x \<in> fst ` set ?M" by (metis imageI)
        with False show False ..
      qed
      from x(2) xw have "fst x \<notin> U" by simp
      with i3 x(1) xl have len5: "length L = 5" and bel: "\<forall>y\<in>set L. ranks_before y x"
        by blast+
      have "length (filter (\<lambda>x. fst x \<noteq> w) L) \<ge> 4"
      proof -
        have "length (filter (\<lambda>x. fst x = w) L) \<le> 1"
          using dk by (rule distinct_filter_key)
        moreover have "length (filter (\<lambda>x. fst x = w) L) + length (filter (\<lambda>x. fst x \<noteq> w) L)
            = length L"
          using sum_length_filter_compl[of "\<lambda>x. fst x = w" L] by simp
        ultimately show ?thesis using len5 by linarith
      qed
      then have l5: "length ?L' = 5" using lenM by simp
      from sb have "ranks_before (w, f) (L ! 4)" by (simp add: should_be_iff[OF len5])
      moreover have "L ! 4 \<in> set L" using len5 by simp
      ultimately have wx: "ranks_before (w, f) x" using bel ranks_before_trans by blast
      have "\<forall>y\<in>set ?L'. ranks_before y x"
      proof
        fix y assume "y \<in> set ?L'"
        with sub have "y = (w, f) \<or> y \<in> set L" by auto
        with wx bel show "ranks_before y x" by blast
      qed
      with l5 show ?thesis by simp
    qed
  qed
  from p(1) dk' le' i2' i3' show ?thesis
    unfolding top5_inv_def insert_or_update_as_build by blast
qed

lemma reconcile_word_step:
  assumes dV: "distinct (map fst V)" and inv: "top5_inv V U L" and wU: "w \<in> U"
    and wV: "w \<in> fst ` set V"
  shows "top5_inv V (U - {w}) (reconcile_word V L w)"
proof -
  from wV obtain f where f: "(w, f) \<in> set V" by auto
  have g: "get0 V w = f" using dV f by (rule get0_present)
  show ?thesis
  proof (cases "should_be_in_top5 w f L")
    case True
    from reconcile_insert[OF dV inv wU f True] True show ?thesis
      by (simp add: reconcile_word_def g)
  next
    case False
    from reconcile_skip[OF dV inv wU f False] False show ?thesis
      by (simp add: reconcile_word_def g)
  qed
qed

lemma reconcile_fold:
  assumes dV: "distinct (map fst V)"
  shows "distinct ws \<Longrightarrow> set ws \<subseteq> fst ` set V \<Longrightarrow> top5_inv V (set ws) L \<Longrightarrow>
         top5_inv V {} (foldl (reconcile_word V) L ws)"
proof (induction ws arbitrary: L)
  case Nil
  then show ?case by simp
next
  case (Cons w ws)
  from Cons.prems(1) have d: "distinct ws" and nw: "w \<notin> set ws" by simp_all
  from Cons.prems(2) have wV: "w \<in> fst ` set V" and sub: "set ws \<subseteq> fst ` set V" by simp_all
  have "w \<in> set (w # ws)" by simp
  from reconcile_word_step[OF dV Cons.prems(3) this wV]
  have "top5_inv V (set (w # ws) - {w}) (reconcile_word V L w)" .
  moreover have "set (w # ws) - {w} = set ws" using nw by auto
  ultimately have "top5_inv V (set ws) (reconcile_word V L w)" by simp
  from Cons.IH[OF d sub this] show ?case by simp
qed

lemma top5_inv_done:
  assumes dV: "distinct (map fst V)" and inv: "top5_inv V {} L"
  shows "L = build_initial_top5 V"
proof -
  from inv have s: "sorted_wrt ranks_before L" and le: "length L \<le> 5"
    and i2: "\<forall>x\<in>set L. x \<in> set V"
    and i3: "\<forall>x\<in>set V. fst x \<notin> fst ` set L \<longrightarrow>
               length L = 5 \<and> (\<forall>y\<in>set L. ranks_before y x)"
    unfolding top5_inv_def by simp_all
  have out: "fst x \<notin> fst ` set L" if "x \<in> set V" "x \<notin> set L" for x
  proof
    assume "fst x \<in> fst ` set L"
    then obtain y where y: "y \<in> set L" "fst y = fst x" by force
    with i2 have "y \<in> set V" by simp
    from keys_unique[OF dV this that(1) y(2)] y(1) that(2) show False by simp
  qed
  have sub: "set L \<subseteq> set V" using i2 by blast
  have full: "length L = 5 \<or> set V \<subseteq> set L"
  proof (cases "length L = 5")
    case True
    then show ?thesis ..
  next
    case False
    have "set V \<subseteq> set L"
    proof
      fix x assume x: "x \<in> set V"
      show "x \<in> set L"
      proof (rule ccontr)
        assume "x \<notin> set L"
        from out[OF x this] i3 x False show False by blast
      qed
    qed
    then show ?thesis ..
  qed
  have below: "\<forall>x\<in>set V. x \<notin> set L \<longrightarrow> (\<forall>y\<in>set L. ranks_before y x)"
    using out i3 by blast
  from top5_eqI[OF s sub distinct_keys_distinct[OF dV] le full below] show ?thesis by simp
qed

lemma top5_inv_start:
  assumes dV0: "distinct (map fst V0)" and dV: "distinct (map fst V)"
    and keys: "fst ` set V = fst ` set V0 \<union> set words"
    and g: "\<forall>w. get0 V w = get0 V0 w + int (count_list words w)"
  shows "top5_inv V (set words) (build_initial_top5 V0)"
proof -
  let ?L = "build_initial_top5 V0"
  note p = top5_props[OF distinct_keys_distinct[OF dV0]]
  have same: "x \<in> set V" if "x \<in> set V0" "fst x \<notin> set words" for x
  proof -
    from that(1) keys have "fst x \<in> fst ` set V" by force
    then obtain y where y: "y \<in> set V" "fst y = fst x" by force
    from that(2) have "count_list words (fst x) = 0" by (simp add: count_list_0_iff)
    with g have "get0 V (fst x) = get0 V0 (fst x)" by simp
    moreover have "get0 V (fst x) = snd y"
      using get0_present[OF dV, of "fst x" "snd y"] y by (metis prod.collapse)
    moreover have "get0 V0 (fst x) = snd x"
      using get0_present[OF dV0, of "fst x" "snd x"] that(1) by simp
    ultimately have "y = x" using y(2) by (simp add: prod_eq_iff)
    with y(1) show ?thesis by simp
  qed
  have same': "x \<in> set V0" if "x \<in> set V" "fst x \<notin> set words" for x
  proof -
    from that keys have "fst x \<in> fst ` set V0" by force
    then obtain y where y: "y \<in> set V0" "fst y = fst x" by force
    with that(2) have "y \<in> set V" using same by simp
    from keys_unique[OF dV this that(1) y(2)] y(1) show ?thesis by simp
  qed
  have i2: "\<forall>x\<in>set ?L. if fst x \<in> set words then snd x < get0 V (fst x) else x \<in> set V"
  proof
    fix x assume "x \<in> set ?L"
    with p(2) have x0: "x \<in> set V0" by blast
    show "if fst x \<in> set words then snd x < get0 V (fst x) else x \<in> set V"
    proof (cases "fst x \<in> set words")
      case True
      then have "count_list words (fst x) \<noteq> 0" by (simp only: count_list_0_iff not_not)
      then have "0 < count_list words (fst x)" by simp
      moreover have "get0 V0 (fst x) = snd x"
        using get0_present[OF dV0, of "fst x" "snd x"] x0 by simp
      ultimately show ?thesis using g True by simp
    next
      case False
      with same[OF x0] show ?thesis by simp
    qed
  qed
  have i3: "\<forall>x\<in>set V. fst x \<notin> set words \<longrightarrow> fst x \<notin> fst ` set ?L \<longrightarrow>
               length ?L = 5 \<and> (\<forall>y\<in>set ?L. ranks_before y x)"
  proof (intro ballI impI)
    fix x assume x: "x \<in> set V" "fst x \<notin> set words" "fst x \<notin> fst ` set ?L"
    from same'[OF x(1,2)] have x0: "x \<in> set V0" .
    from x(3) have "x \<notin> set ?L" by force
    from p(4)[OF x0 this] show "length ?L = 5 \<and> (\<forall>y\<in>set ?L. ranks_before y x)" .
  qed
  have "length ?L \<le> 5" using p(3) by simp
  with p(1) build_keys_distinct[OF dV0] i2 i3 show ?thesis
    unfolding top5_inv_def by blast
qed

section \<open>Every reachable state is consistent\<close>

lemma add_words_traced_batch:
  assumes ne: "tokenize str \<noteq> []"
    and f: "foldl count_word (word_counts s, [], [], total_words s) (tokenize str)
            = (counts, changes, changed, t)"
    and ch: "changed \<noteq> []"
  shows "add_words_traced iter s str =
    (Some (fst (update_top_five_incremental counts (top_five_nodes s) (iter changed))),
     s\<lparr>word_counts := counts,
       freq_nodes := update_frequency_counts (freq_nodes s) changes,
       total_words := t,
       top_five_nodes := snd (update_top_five_incremental counts (top_five_nodes s) (iter changed))\<rparr>)"
  by (simp add: add_words_traced_def ne f ch Let_def split: prod.splits)

lemma update_top_five_result:
  assumes dV0: "distinct (map fst V0)" and dV: "distinct (map fst V)"
    and keys: "fst ` set V = fst ` set V0 \<union> set words"
    and g: "\<forall>w. get0 V w = get0 V0 w + int (count_list words w)"
    and ord: "distinct ws" "set ws = set words"
  shows "snd (update_top_five_incremental V (build_initial_top5 V0) ws) = build_initial_top5 V"
proof (cases "build_initial_top5 V0 = []")
  case True
  then show ?thesis by (simp add: update_top_five_incremental_def)
next
  case False
  have sub: "set ws \<subseteq> fst ` set V" using ord(2) keys by simp
  have "top5_inv V (set ws) (build_initial_top5 V0)"
    using top5_inv_start[OF dV0 dV keys g] ord(2) by simp
  from reconcile_fold[OF dV ord(1) sub this]
  have "top5_inv V {} (foldl (reconcile_word V) (build_initial_top5 V0) ws)" .
  from top5_inv_done[OF dV this] False show ?thesis
    by (simp add: update_top_five_incremental_def)
qed

lemma counts_consistent_init: "counts_consistent init"
  by (simp add: counts_consistent_def init_def freq_nodes_ok_def get0_def words_with_def)

lemma counts_consistent_clear: "counts_consistent (clear s)"
  by (simp add: counts_consistent_def clear_def freq_nodes_ok_def get0_def words_with_def)

lemma consistent_init: "consistent init"
  using counts_consistent_init by (simp add: consistent_def init_def build_initial_top5_def)

lemma consistent_clear: "consistent (clear s)"
  using counts_consistent_clear[of s]
  by (simp add: consistent_def clear_def build_initial_top5_def)

lemma add_words_counts_consistent:
  assumes c: "counts_consistent s"
  shows "counts_consistent (add_words iter s str)"
proof (cases "tokenize str = []")
  case True
  with c show ?thesis by (simp add: add_words_def add_words_traced_def)
next
  case ne: False
  from c have dV0: "distinct (map fst (word_counts s))"
    and pos0: "\<forall>x\<in>set (word_counts s). 1 \<le> snd x"
    and ok0: "freq_nodes_ok (freq_nodes s)"
    and h0: "\<forall>f. get0 (freq_nodes s) f = words_with (word_counts s) f"
    by (simp_all add: counts_consistent_def list_all_iff)
  obtain counts changes changed t where
    f: "foldl count_word (word_counts s, [], [], total_words s) (tokenize str)
        = (counts, changes, changed, t)"
    by (metis prod_cases4)
  have dnil: "distinct (map fst ([] :: (int \<times> int) list))" by simp
  from count_words_fold[OF dV0 pos0 dnil f]
  have dV: "distinct (map fst counts)" and pos: "\<forall>x\<in>set counts. 1 \<le> snd x"
    and dch: "distinct (map fst changes)" and chd: "changed = tokenize str"
    and delta: "\<forall>f. get0 changes f - get0 [] f = words_with counts f - words_with (word_counts s) f"
    by simp_all
  from chd ne have ch: "changed \<noteq> []" by simp
  let ?nodes = "update_frequency_counts (freq_nodes s) changes"
  let ?top = "snd (update_top_five_incremental counts (top_five_nodes s) (iter changed))"
  have res: "add_words iter s str =
      s\<lparr>word_counts := counts, freq_nodes := ?nodes, total_words := t, top_five_nodes := ?top\<rparr>"
    by (simp add: add_words_def add_words_traced_batch[OF ne f ch])
  have ok: "freq_nodes_ok ?nodes" using ok0 by (rule update_frequency_counts_ok)
  have h: "\<forall>f. get0 ?nodes f = words_with counts f"
  proof
    fix f
    from delta have "get0 changes f = words_with counts f - words_with (word_counts s) f"
      by (simp add: get0_Nil)
    with h0 have "get0 (freq_nodes s) f + get0 changes f = words_with counts f" by simp
    with update_frequency_counts_get0[OF ok0 dch, of f] words_with_nonneg[of counts f]
    show "get0 ?nodes f = words_with counts f" by simp
  qed
  from dV pos ok h show ?thesis
    by (simp add: res counts_consistent_def list_all_iff)
qed

lemma add_words_consistent:
  assumes ord: "set_order iter" and c: "consistent s"
  shows "consistent (add_words iter s str)"
proof (cases "tokenize str = []")
  case True
  with c show ?thesis by (simp add: add_words_def add_words_traced_def)
next
  case ne: False
  from c have cc: "counts_consistent s"
    and t0: "top_five_nodes s = build_initial_top5 (word_counts s)"
    by (simp_all add: consistent_def)
  from cc have dV0: "distinct (map fst (word_counts s))"
    and pos0: "\<forall>x\<in>set (word_counts s). 1 \<le> snd x"
    by (simp_all add: counts_consistent_def list_all_iff)
  obtain counts changes changed t where
    f: "foldl count_word (word_counts s, [], [], total_words s) (tokenize str)
        = (counts, changes, changed, t)"
    by (metis prod_cases4)
  have dnil: "distinct (map fst ([] :: (int \<times> int) list))" by simp
  from count_words_fold[OF dV0 pos0 dnil f]
  have dV: "distinct (map fst counts)" and chd: "changed = tokenize str"
    and g: "\<forall>w. get0 counts w = get0 (word_counts s) w + int (count_list (tokenize str) w)"
    and keys: "fst ` set counts = fst ` set (word_counts s) \<union> set (tokenize str)"
    by simp_all
  from chd ne have ch: "changed \<noteq> []" by simp
  let ?nodes = "update_frequency_counts (freq_nodes s) changes"
  let ?top = "snd (update_top_five_incremental counts (top_five_nodes s) (iter changed))"
  have res: "add_words iter s str =
      s\<lparr>word_counts := counts, freq_nodes := ?nodes, total_words := t, top_five_nodes := ?top\<rparr>"
    by (simp add: add_words_def add_words_traced_batch[OF ne f ch])
  from ord have io: "distinct (iter changed)" "set (iter changed) = set (tokenize str)"
    by (simp_all add: set_order_def chd)
  have top: "?top = build_initial_top5 counts"
    unfolding t0 using dV0 dV keys g io by (rule update_top_five_result)
  from add_words_counts_consistent[OF cc, of iter str] top show ?thesis
    by (simp add: res consistent_def)
qed

lemma run_snoc: "run iter (ops @ [op]) = step iter (run iter ops) op"
  by (simp add: run_def)

lemma run_Nil: "run iter [] = init"
  by (simp add: run_def)

lemma run_counts_consistent: "counts_consistent (run iter ops)"
proof (induction ops rule: rev_induct)
  case Nil
  then show ?case by (simp add: run_Nil counts_consistent_init)
next
  case (snoc op ops)
  show ?case
  proof (cases op)
    case (Add_words str)
    with add_words_counts_consistent[OF snoc.IH] show ?thesis by (simp add: run_snoc)
  next
    case Clear
    then show ?thesis by (simp add: run_snoc counts_consistent_clear)
  qed
qed

lemma run_consistent:
  assumes "set_order iter"
  shows "consistent (run iter ops)"
proof (induction ops rule: rev_induct)
  case Nil
  then show ?case by (simp add: run_Nil consistent_init)
next
  case (snoc op ops)
  show ?case
  proof (cases op)
    case (Add_words str)
    with add_words_consistent[OF assms snoc.IH] show ?thesis by (simp add: run_snoc)
  next
    case Clear
    then show ?thesis by (simp add: run_snoc consistent_clear)
  qed
qed

section \<open>Tokenization and reset\<close>

text \<open>
  C8. Tokenization is the comprehension of the source: the pieces between commas, each
  trimmed, the pieces that are empty after trimming dropped, the rest case-folded. So every
  token is non-empty, starts and ends with a non-space character, holds no comma and is its
  own lower case. An input made of commas and whitespace only (the empty string, a
  whitespace-only string, empty comma-separated fields) has no token, and \<open>add_words\<close>
  returns at once on it: the state is unchanged, and no top 5 update runs.
\<close>

theorem add_words_blank_is_noop:
  "(\<forall>t\<in>set (tokenize words_string).
       t \<noteq> [] \<and> \<not> is_space (hd t) \<and> \<not> is_space (last t) \<and> CHR '','' \<notin> set t \<and> lower t = t)
   \<and> ((\<forall>c\<in>set words_string. c = CHR '','' \<or> is_space c) \<longrightarrow>
        tokenize words_string = []
        \<and> add_words iter self words_string = self
        \<and> add_words_traced iter self words_string = (None, self))"
proof (intro conjI ballI impI)
  fix t assume "t \<in> set (tokenize words_string)"
  from tokenize_token[OF this]
  show "t \<noteq> []" "\<not> is_space (hd t)" "\<not> is_space (last t)" "CHR '','' \<notin> set t" "lower t = t"
    by blast+
next
  assume b: "\<forall>c\<in>set words_string. c = CHR '','' \<or> is_space c"
  from tokenize_blank[OF b] show e: "tokenize words_string = []" .
  from add_words_no_tokens[OF e] show "add_words_traced iter self words_string = (None, self)" .
  then show "add_words iter self words_string = self" by (simp add: add_words_def)
qed

theorem add_words_blank_is_noop_witness:
  "add_words remdups (run remdups [Add_words ''b, a'']) '' , ,,  '' = run remdups [Add_words ''b, a'']
   \<and> add_words remdups init [] = init
   \<and> tokenize ''x,  Yz '' = [''x'', ''yz'']
   \<and> \<not> is_space (hd ''yz'') \<and> \<not> is_space (last ''yz'') \<and> CHR '','' \<notin> set ''yz''
   \<and> lower ''yz'' = ''yz''"
proof -
  have b: "\<forall>c\<in>set '' , ,,  ''. c = CHR '','' \<or> is_space c"
    by (simp add: is_space_def)
  have b0: "\<forall>c\<in>set []. c = CHR '','' \<or> is_space c" by simp
  from add_words_blank_is_noop[of "'' , ,,  ''" remdups "run remdups [Add_words ''b, a'']"] b
  have 1: "add_words remdups (run remdups [Add_words ''b, a'']) '' , ,,  '' = run remdups [Add_words ''b, a'']"
    by blast
  from add_words_blank_is_noop[of "[]" remdups init] b0
  have 2: "add_words remdups init [] = init" by blast
  have t: "tokenize ''x,  Yz '' = [''x'', ''yz'']" by code_simp
  then have m: "''yz'' \<in> set (tokenize ''x,  Yz '')" by simp
  from add_words_blank_is_noop[of "''x,  Yz ''" remdups init] m
  have 3: "\<not> is_space (hd ''yz'') \<and> \<not> is_space (last ''yz'') \<and> CHR '','' \<notin> set ''yz''
    \<and> lower ''yz'' = ''yz''" by blast
  from 1 2 t 3 show ?thesis by blast
qed

text \<open>
  C10. The input is split at commas and nowhere else, and a piece with whitespace inside is
  one word. Every comma separates: the tokens of \<open>a,b\<close> are the tokens of \<open>a\<close> followed by
  the tokens of \<open>b\<close>. Nothing else separates: a piece without a comma gives no token when
  it is blank and otherwise exactly one, its trimmed form in lower case. Trimming removes
  whitespace at the two ends only (the piece is whitespace, the trimmed form, whitespace,
  and a non-empty trimmed form starts and ends with a non-space character), and lower-casing
  keeps every whitespace character where it is, so the whitespace inside a piece is part of
  the word. Ingesting an input into any state counts each token as one occurrence of that
  word: the frequency of a word among the tokens becomes its old count plus the number of
  tokens equal to it, every other word keeps its entry or stays absent. In particular a
  single non-blank piece ingested into a fresh analyzer gives one vocabulary entry, with
  count 1.
\<close>

theorem input_is_split_at_commas_only:
  "tokenize (a @ CHR '','' # b) = tokenize a @ tokenize b
   \<and> (CHR '','' \<notin> set p \<longrightarrow>
        tokenize p = (if strip p = [] then [] else [lower (strip p)]))
   \<and> (\<exists>l r. p = l @ strip p @ r \<and> (\<forall>c\<in>set l. is_space c) \<and> (\<forall>c\<in>set r. is_space c))
   \<and> (strip p \<noteq> [] \<longrightarrow> \<not> is_space (hd (strip p)) \<and> \<not> is_space (last (strip p)))
   \<and> length (lower q) = length q
   \<and> (\<forall>i<length q. if is_space (q ! i) then lower q ! i = q ! i else \<not> is_space (lower q ! i))
   \<and> get_all_frequencies (add_words iter self s) w =
        (if w \<in> set (tokenize s)
         then Some (get0 (word_counts self) w + int (count_list (tokenize s) w))
         else get_all_frequencies self w)
   \<and> (CHR '','' \<notin> set p \<and> strip p \<noteq> [] \<longrightarrow>
        word_counts (add_words iter init p) = [(lower (strip p), 1)])"
proof -
  have 1: "tokenize (a @ CHR '','' # b) = tokenize a @ tokenize b"
    by (rule tokenize_append)
  have 2: "CHR '','' \<notin> set p \<longrightarrow> tokenize p = (if strip p = [] then [] else [lower (strip p)])"
    by (simp add: tokenize_piece)
  note 3 = strip_decompose[of p]
  have 4: "strip p \<noteq> [] \<longrightarrow> \<not> is_space (hd (strip p)) \<and> \<not> is_space (last (strip p))"
    using strip_hd[of p] strip_last[of p] by blast
  note 5 = lower_keeps_space[of q]
  note 6 = add_words_frequencies[of iter self s w]
  have 7: "CHR '','' \<notin> set p \<and> strip p \<noteq> [] \<longrightarrow>
        word_counts (add_words iter init p) = [(lower (strip p), 1)]"
  proof
    assume h: "CHR '','' \<notin> set p \<and> strip p \<noteq> []"
    then have t: "tokenize p = [lower (strip p)]" by (simp add: tokenize_piece)
    show "word_counts (add_words iter init p) = [(lower (strip p), 1)]"
      by (simp add: add_words_def one_token_add[OF t])
  qed
  from 1 2 3 4 5 6 7 show ?thesis by (intro conjI) (rule 1 2 3 4 6 7 conjunct1[OF 5] conjunct2[OF 5])+
qed

theorem input_is_split_at_commas_only_witness:
  "tokenize ''new york, Boston'' = [''new york'', ''boston'']
   \<and> tokenize ''  New  York '' = [''new  york'']
   \<and> ''  New  York '' = ''  '' @ strip ''  New  York '' @ '' ''
   \<and> get_all_frequencies
        (add_words remdups (run remdups [Add_words ''york, new york'']) ''new york , x,New York'')
        ''new york'' = Some 3
   \<and> get_all_frequencies
        (add_words remdups (run remdups [Add_words ''york, new york'']) ''new york , x,New York'')
        ''york'' = Some 1
   \<and> get_all_frequencies
        (add_words remdups (run remdups [Add_words ''york, new york'']) ''new york , x,New York'')
        ''new'' = None
   \<and> word_counts (add_words remdups init ''new york'') = [(''new york'', 1)]"
proof -
  have c1: "CHR '','' \<notin> set ''new york''" by simp
  have c2: "CHR '','' \<notin> set '' Boston''" by simp
  have c3: "CHR '','' \<notin> set ''  New  York ''" by simp
  have s1: "strip ''new york'' = ''new york''" by code_simp
  have s2: "strip '' Boston'' = ''Boston''" by code_simp
  have s3: "strip ''  New  York '' = ''New  York''" by code_simp
  have l1: "lower ''new york'' = ''new york''" by code_simp
  have l2: "lower ''Boston'' = ''boston''" by code_simp
  have l3: "lower ''New  York'' = ''new  york''" by code_simp
  have p1: "tokenize ''new york'' = [''new york'']"
    using input_is_split_at_commas_only[where p = "''new york''", THEN conjunct2, THEN conjunct1] c1
    by (simp only: s1 l1) simp
  have p2: "tokenize '' Boston'' = [''boston'']"
    using input_is_split_at_commas_only[where p = "'' Boston''", THEN conjunct2, THEN conjunct1] c2
    by (simp only: s2 l2) simp
  have a: "tokenize ''new york, Boston'' = [''new york'', ''boston'']"
    using input_is_split_at_commas_only[where a = "''new york''" and b = "'' Boston''", THEN conjunct1]
    by (simp add: p1 p2)
  have b: "tokenize ''  New  York '' = [''new  york'']"
    using input_is_split_at_commas_only[where p = "''  New  York ''", THEN conjunct2, THEN conjunct1] c3
    by (simp only: s3 l3) simp
  have c: "''  New  York '' = ''  '' @ strip ''  New  York '' @ '' ''"
    by (simp add: s3)
  let ?self = "run remdups [Add_words ''york, new york'']"
  let ?s = "''new york , x,New York''"
  have t: "tokenize ?s = [''new york'', ''x'', ''new york'']" by code_simp
  have w0: "word_counts ?self = [(''york'', 1), (''new york'', 1)]" by code_simp
  have d: "get_all_frequencies (add_words remdups ?self ?s) ''new york'' = Some 3"
    using input_is_split_at_commas_only[where iter = remdups and self = ?self and s = ?s and w = "''new york''",
        THEN conjunct2, THEN conjunct2, THEN conjunct2, THEN conjunct2, THEN conjunct2,
        THEN conjunct2, THEN conjunct1]
    by (simp add: t w0 get0_def)
  have e: "get_all_frequencies (add_words remdups ?self ?s) ''york'' = Some 1"
    using input_is_split_at_commas_only[where iter = remdups and self = ?self and s = ?s and w = "''york''",
        THEN conjunct2, THEN conjunct2, THEN conjunct2, THEN conjunct2, THEN conjunct2,
        THEN conjunct2, THEN conjunct1]
    by (simp add: t w0 get_all_frequencies_def)
  have f: "get_all_frequencies (add_words remdups ?self ?s) ''new'' = None"
    using input_is_split_at_commas_only[where iter = remdups and self = ?self and s = ?s and w = "''new''",
        THEN conjunct2, THEN conjunct2, THEN conjunct2, THEN conjunct2, THEN conjunct2,
        THEN conjunct2, THEN conjunct1]
    by (simp add: t w0 get_all_frequencies_def)
  have g: "word_counts (add_words remdups init ''new york'') = [(''new york'', 1)]"
    using input_is_split_at_commas_only[where p = "''new york''" and iter = remdups, THEN conjunct2, THEN conjunct2,
        THEN conjunct2, THEN conjunct2, THEN conjunct2, THEN conjunct2, THEN conjunct2] c1
    by (simp only: s1 l1) simp
  from a b c d e f g show ?thesis by (intro conjI)
qed

text \<open>
  C5. \<open>clear\<close> empties the counter and both lists and zeroes the word total: the state
  is the state of a freshly constructed analyzer, whatever it was before. So each query
  gives the fresh analyzer's answer (no words, lowest frequency 0, median 0.0, no
  frequencies, no frequency counts), and so does every query after any further operations.
\<close>

theorem clear_is_fresh:
  "clear self = init
   \<and> get_top_five_most_frequent (clear self) = []
   \<and> get_lowest_frequency (clear self) = 0
   \<and> get_median_frequency (clear self) = 0
   \<and> get_all_frequencies (clear self) = Map.empty
   \<and> get_frequency_counts (clear self) = []
   \<and> foldl (step iter) (clear self) ops = foldl (step iter) init ops"
proof -
  have "clear self = init" by (simp add: clear_def init_def)
  then show ?thesis
    by (simp add: init_def get_top_five_most_frequent_def get_lowest_frequency_def
        get_median_frequency_def get_all_frequencies_def get_frequency_counts_def)
qed

section \<open>The top 5 list is the full rebuild\<close>

lemma set_order_remdups: "set_order remdups"
  by (simp add: set_order_def)

text \<open>
  C1. After any sequence of batches and resets, whatever the order in which the loop
  visits the set of changed words, the top 5 list is the first min(5, vocabulary size)
  items of the counter sorted by (frequency descending, word ascending), which is what
  the full rebuild computes from the counter. Written out: it has min(5, vocabulary size)
  entries, no word twice, each entry an item of the counter (so with the word's exact
  count, which is at least 1), in rank order, and every item of the counter outside the
  list ranks after every entry of the list.
\<close>

theorem top_five_is_full_rebuild:
  fixes iter ops
  defines "top5 \<equiv> get_top_five_most_frequent (run iter ops)"
    and "vocabulary \<equiv> word_counts (run iter ops)"
  assumes ord: "set_order iter"
  shows "top5 = take (min 5 (length vocabulary)) (sort_key rank_key vocabulary)
    \<and> top5 = build_initial_top5 vocabulary
    \<and> length top5 = min 5 (length vocabulary)
    \<and> distinct (map fst top5)
    \<and> sorted_wrt ranks_before top5
    \<and> set top5 \<subseteq> set vocabulary
    \<and> (\<forall>x\<in>set vocabulary. x \<notin> set top5 \<longrightarrow> (\<forall>y\<in>set top5. ranks_before y x))
    \<and> distinct (map fst vocabulary)
    \<and> (\<forall>x\<in>set vocabulary. 1 \<le> snd x)"
proof -
  from run_consistent[OF ord, of ops]
  have t: "top5 = build_initial_top5 vocabulary" and dV: "distinct (map fst vocabulary)"
    and pos: "\<forall>x\<in>set vocabulary. 1 \<le> snd x"
    by (simp_all add: consistent_def counts_consistent_def list_all_iff top5_def vocabulary_def
        get_top_five_most_frequent_def)
  note p = top5_props[OF distinct_keys_distinct[OF dV]]
  have a: "top5 = take (min 5 (length vocabulary)) (sort_key rank_key vocabulary)"
    unfolding t build_initial_top5_def by (simp add: min_def)
  have b: "\<forall>x\<in>set vocabulary. x \<notin> set top5 \<longrightarrow> (\<forall>y\<in>set top5. ranks_before y x)"
    unfolding t using p(4) by blast
  from a t p(1,2,3) build_keys_distinct[OF dV] b dV pos show ?thesis
    unfolding t by blast
qed


theorem top_five_is_full_rebuild_witness:
  "set_order remdups
   \<and> get_top_five_most_frequent
        (run remdups [Add_words ''apple, banana, apple, cherry'',
                      Add_words ''banana, cherry, elderberry, fig'',
                      Add_words ''zebra, fig, Fig, FIG ''])
       = build_initial_top5 (word_counts
        (run remdups [Add_words ''apple, banana, apple, cherry'',
                      Add_words ''banana, cherry, elderberry, fig'',
                      Add_words ''zebra, fig, Fig, FIG '']))
   \<and> get_top_five_most_frequent
        (run remdups [Add_words ''apple, banana, apple, cherry'',
                      Add_words ''banana, cherry, elderberry, fig'',
                      Add_words ''zebra, fig, Fig, FIG ''])
       = [(''fig'', 4), (''apple'', 2), (''banana'', 2), (''cherry'', 2), (''elderberry'', 1)]"
proof -
  have o: "set_order remdups" by (rule set_order_remdups)
  have e: "get_top_five_most_frequent
        (run remdups [Add_words ''apple, banana, apple, cherry'',
                      Add_words ''banana, cherry, elderberry, fig'',
                      Add_words ''zebra, fig, Fig, FIG ''])
       = [(''fig'', 4), (''apple'', 2), (''banana'', 2), (''cherry'', 2), (''elderberry'', 1)]"
    by code_simp
  from top_five_is_full_rebuild[OF o] o e show ?thesis by blast
qed

section \<open>The frequency count list in reachable states\<close>

lemma node_key_iff:
  assumes "freq_nodes_ok nodes"
  shows "(f \<in> fst ` set nodes) = (0 < get0 nodes f)"
proof
  assume "f \<in> fst ` set nodes"
  then obtain n where n: "n \<in> set nodes" "fst n = f" by auto
  then have "(f, snd n) \<in> set nodes" by (metis prod.collapse)
  from get0_present[OF freq_nodes_ok_distinct[OF assms] this] have "get0 nodes f = snd n" .
  moreover from assms n(1) have "0 < snd n" by (simp add: freq_nodes_ok_def list_all_iff)
  ultimately show "0 < get0 nodes f" by simp
next
  assume "0 < get0 nodes f"
  then show "f \<in> fst ` set nodes" using get0_absent[of f nodes] by force
qed

lemma node_count:
  assumes "freq_nodes_ok nodes" "n \<in> set nodes"
  shows "get0 nodes (fst n) = snd n"
proof -
  from assms(2) have "(fst n, snd n) \<in> set nodes" by simp
  from get0_present[OF freq_nodes_ok_distinct[OF assms(1)] this] show ?thesis .
qed

lemma words_with_pos_iff: "(0 < words_with counts f) = (f \<in> snd ` set counts)"
proof -
  have "(0 < words_with counts f) = (filter (\<lambda>x. snd x = f) counts \<noteq> [])"
    by (simp add: words_with_def)
  also have "\<dots> = (\<exists>x\<in>set counts. snd x = f)" by (simp add: filter_empty_conv)
  also have "\<dots> = (f \<in> snd ` set counts)" by force
  finally show ?thesis .
qed

lemma words_with_card:
  assumes "distinct (map fst counts)"
  shows "words_with counts f = int (card {w. map_of counts w = Some f})"
proof -
  let ?F = "filter (\<lambda>x. snd x = f) counts"
  have d: "distinct (map fst ?F)" using assms by (rule distinct_map_filter)
  have "{w. map_of counts w = Some f} = set (map fst ?F)"
  proof (rule set_eqI)
    fix w
    have "(map_of counts w = Some f) = ((w, f) \<in> set counts)"
      using assms by simp
    also have "\<dots> = (w \<in> set (map fst ?F))" by force
    finally show "(w \<in> {w. map_of counts w = Some f}) = (w \<in> set (map fst ?F))" by simp
  qed
  then have "card {w. map_of counts w = Some f} = length (map fst ?F)"
    using d by (simp only: distinct_card)
  then show ?thesis by (simp add: words_with_def)
qed

lemma length_by_value:
  assumes "finite F" "snd ` set counts \<subseteq> F"
  shows "int (length counts) = (\<Sum>f\<in>F. words_with counts f)"
  using assms(2)
proof (induction counts)
  case Nil
  then show ?case by (simp add: words_with_Nil)
next
  case (Cons x xs)
  then have xF: "snd x \<in> F" and sub: "snd ` set xs \<subseteq> F" by simp_all
  have "(\<Sum>f\<in>F. words_with (x # xs) f)
      = (\<Sum>f\<in>F. (if snd x = f then 1 else 0)) + (\<Sum>f\<in>F. words_with xs f)"
    by (simp add: words_with_Cons sum.distrib)
  also have "(\<Sum>f\<in>F. (if snd x = f then 1 else 0 :: int)) = 1"
    using assms(1) xF by (simp add: sum.delta)
  finally show ?case using Cons.IH[OF sub] by simp
qed

lemma sum_counts:
  assumes ok: "freq_nodes_ok nodes"
    and h: "\<forall>f. get0 nodes f = words_with counts f"
  shows "sum_list (map snd nodes) = int (length counts)"
proof -
  let ?F = "set (map fst nodes)"
  have d: "distinct (map fst nodes)" using ok by (rule freq_nodes_ok_distinct)
  have sub: "snd ` set counts \<subseteq> ?F"
  proof
    fix f assume "f \<in> snd ` set counts"
    then have "0 < words_with counts f" by (simp add: words_with_pos_iff)
    with h have "0 < get0 nodes f" by simp
    then show "f \<in> ?F" using node_key_iff[OF ok, of f] by simp
  qed
  have "\<forall>n\<in>set nodes. snd n = words_with counts (fst n)"
    using node_count[OF ok] h by simp
  then have "map snd nodes = map (\<lambda>n. words_with counts (fst n)) nodes"
    by (simp only: map_eq_conv)
  also have "\<dots> = map (words_with counts) (map fst nodes)" by (simp add: comp_def)
  finally have "sum_list (map snd nodes) = sum_list (map (words_with counts) (map fst nodes))"
    by (rule arg_cong)
  also have "\<dots> = (\<Sum>f\<in>?F. words_with counts f)"
    using d by (rule sum_list_distinct_conv_sum_set)
  also have "\<dots> = int (length counts)"
    using length_by_value[of ?F counts] sub by simp
  finally show ?thesis .
qed

lemma node_keys_are_values:
  assumes ok: "freq_nodes_ok nodes"
    and h: "\<forall>f. get0 nodes f = words_with counts f"
  shows "fst ` set nodes = snd ` set counts"
proof (rule set_eqI)
  fix f
  show "(f \<in> fst ` set nodes) = (f \<in> snd ` set counts)"
    using node_key_iff[OF ok, of f] h words_with_pos_iff[of counts f] by simp
qed

lemma one_node_per_key:
  assumes "distinct (map fst nodes)" "(f, c) \<in> set nodes"
  shows "filter (\<lambda>n. fst n = f) nodes = [(f, c)]"
  using assms
proof (induction nodes)
  case Nil
  then show ?case by simp
next
  case (Cons n ns)
  show ?case
  proof (cases "n = (f, c)")
    case True
    from Cons.prems(1) True have "f \<notin> fst ` set ns" by simp
    then have "\<forall>m\<in>set ns. fst m \<noteq> f" by blast
    then have "filter (\<lambda>n. fst n = f) ns = []" by (simp add: filter_empty_conv)
    with True show ?thesis by simp
  next
    case False
    with Cons.prems(2) have in_ns: "(f, c) \<in> set ns" by simp
    then have "f \<in> fst ` set ns" by force
    with Cons.prems(1) have "fst n \<noteq> f" by auto
    with Cons.IH[OF _ in_ns] Cons.prems(1) show ?thesis by simp
  qed
qed

lemma last_is_Min:
  assumes "sorted_wrt (>) (xs :: int list)" "xs \<noteq> []"
  shows "last xs = Min (set xs)"
proof -
  have split: "butlast xs @ [last xs] = xs" using assms(2) by simp
  have "sorted_wrt (>) (butlast xs @ [last xs])" using assms(1) by (simp only: split)
  then have b: "\<forall>y\<in>set (butlast xs). last xs < y" unfolding sorted_wrt_append by simp
  have "set xs = set (butlast xs) \<union> {last xs}"
    by (metis split set_append list.set(1) list.set(2))
  with b have le: "\<And>y. y \<in> set xs \<Longrightarrow> last xs \<le> y" by auto
  have mem: "last xs \<in> set xs" using assms(2) by simp
  have "Min (set xs) = last xs"
    by (rule Min_eqI) (use le mem in simp_all)
  then show ?thesis by simp
qed

lemma run_counts_facts:
  fixes iter ops
  defines "s \<equiv> run iter ops"
  shows "distinct (map fst (word_counts s))"
    and "\<forall>x\<in>set (word_counts s). 1 \<le> snd x"
    and "freq_nodes_ok (freq_nodes s)"
    and "\<forall>f. get0 (freq_nodes s) f = words_with (word_counts s) f"
  using run_counts_consistent[of iter ops]
  by (simp_all add: counts_consistent_def list_all_iff s_def)

text \<open>
  C7. In every reachable state \<open>get_lowest_frequency\<close> is 0 when the vocabulary is empty
  (as on a new analyzer and after a reset) and otherwise the least occurrence count of
  the words in the vocabulary, which is the frequency of the node with the smallest
  frequency of the frequency count list; that list is empty exactly when the vocabulary
  is.
\<close>

theorem lowest_frequency_is_minimum:
  fixes iter ops
  defines "s \<equiv> run iter ops"
  shows "get_lowest_frequency s =
      (if dom (get_all_frequencies s) = {} then 0 else Min (ran (get_all_frequencies s)))
    \<and> (get_frequency_counts s \<noteq> [] \<longrightarrow>
         get_lowest_frequency s = Min (fst ` set (get_frequency_counts s)))
    \<and> (get_frequency_counts s = []) = (dom (get_all_frequencies s) = {})
    \<and> get_lowest_frequency init = 0
    \<and> get_lowest_frequency (clear s) = 0"
proof -
  let ?V = "word_counts s" and ?N = "freq_nodes s"
  have dV: "distinct (map fst ?V)" and ok: "freq_nodes_ok ?N"
    and h: "\<forall>f. get0 ?N f = words_with ?V f"
    unfolding s_def by (rule run_counts_facts)+
  have keys: "fst ` set ?N = snd ` set ?V" using ok h by (rule node_keys_are_values)
  have ran: "ran (get_all_frequencies s) = snd ` set ?V"
    unfolding get_all_frequencies_def using dV by (rule ran_distinct)
  have dom: "(dom (get_all_frequencies s) = {}) = (?V = [])"
    by (simp add: get_all_frequencies_def dom_map_of_conv_image_fst)
  have empty: "(?N = []) = (?V = [])"
  proof -
    have "(?N = []) = (fst ` set ?N = {})" by simp
    also have "\<dots> = (snd ` set ?V = {})" by (simp only: keys)
    also have "\<dots> = (?V = [])" by simp
    finally show ?thesis .
  qed
  have low: "get_lowest_frequency s = Min (fst ` set ?N)" if "?N \<noteq> []"
  proof -
    from ok have "sorted_wrt (>) (map fst ?N)" by (simp add: freq_nodes_ok_def)
    from last_is_Min[OF this] that have "last (map fst ?N) = Min (set (map fst ?N))" by simp
    with that show ?thesis by (simp add: get_lowest_frequency_def last_map)
  qed
  have a: "get_lowest_frequency s =
      (if dom (get_all_frequencies s) = {} then 0 else Min (ran (get_all_frequencies s)))"
  proof (cases "?V = []")
    case True
    with empty have "?N = []" by simp
    with True dom show ?thesis by (simp add: get_lowest_frequency_def)
  next
    case False
    with empty have "?N \<noteq> []" by simp
    from low[OF this] False dom show ?thesis by (simp add: keys ran)
  qed
  have b: "get_frequency_counts s \<noteq> [] \<longrightarrow>
      get_lowest_frequency s = Min (fst ` set (get_frequency_counts s))"
    using low by (simp add: get_frequency_counts_def)
  have c: "(get_frequency_counts s = []) = (dom (get_all_frequencies s) = {})"
    using empty dom by (simp add: get_frequency_counts_def)
  have d: "get_lowest_frequency init = 0" "get_lowest_frequency (clear s) = 0"
    by (simp_all add: get_lowest_frequency_def init_def clear_def)
  from a b c d show ?thesis by blast
qed

theorem lowest_frequency_is_minimum_witness:
  "get_frequency_counts (run remdups [Add_words ''a, b, a, c, c, c'', Add_words ''a, d, d'']) \<noteq> []
   \<and> get_lowest_frequency (run remdups [Add_words ''a, b, a, c, c, c'', Add_words ''a, d, d''])
       = Min (fst ` set (get_frequency_counts
            (run remdups [Add_words ''a, b, a, c, c, c'', Add_words ''a, d, d''])))
   \<and> get_lowest_frequency (run remdups [Add_words ''a, b, a, c, c, c'', Add_words ''a, d, d'']) = 1"
proof -
  have n: "get_frequency_counts (run remdups [Add_words ''a, b, a, c, c, c'', Add_words ''a, d, d''])
      = [(3, 2), (2, 1), (1, 1)]"
    by code_simp
  then have ne: "get_frequency_counts
      (run remdups [Add_words ''a, b, a, c, c, c'', Add_words ''a, d, d'']) \<noteq> []"
    by simp
  have v: "get_lowest_frequency (run remdups [Add_words ''a, b, a, c, c, c'', Add_words ''a, d, d'']) = 1"
    by code_simp
  from lowest_frequency_is_minimum[of remdups "[Add_words ''a, b, a, c, c, c'', Add_words ''a, d, d'']"]
    ne v show ?thesis by blast
qed

text \<open>
  C3. In every reachable state the counts of the nodes of the frequency count list add
  up to the number of distinct words in the counter, and a frequency that some word holds
  has exactly one node, whose count is the number of distinct words that hold it. (No
  node stands for a frequency that no word holds.)
\<close>

theorem histogram_matches_counter:
  fixes iter ops
  defines "s \<equiv> run iter ops"
  shows "sum_list (map snd (get_frequency_counts s)) = int (card (dom (get_all_frequencies s)))
    \<and> (\<forall>f. {w. get_all_frequencies s w = Some f} \<noteq> {} \<longrightarrow>
          filter (\<lambda>n. fst n = f) (get_frequency_counts s)
            = [(f, int (card {w. get_all_frequencies s w = Some f}))])
    \<and> (\<forall>n\<in>set (get_frequency_counts s). {w. get_all_frequencies s w = Some (fst n)} \<noteq> {})"
proof -
  let ?V = "word_counts s" and ?N = "freq_nodes s"
  have dV: "distinct (map fst ?V)" and ok: "freq_nodes_ok ?N"
    and h: "\<forall>f. get0 ?N f = words_with ?V f"
    unfolding s_def by (rule run_counts_facts)+
  have dN: "distinct (map fst ?N)" using ok by (rule freq_nodes_ok_distinct)
  have card: "words_with ?V f = int (card {w. get_all_frequencies s w = Some f})" for f
    unfolding get_all_frequencies_def using dV by (rule words_with_card)
  have held: "({w. get_all_frequencies s w = Some f} \<noteq> {}) = (0 < words_with ?V f)" for f
  proof -
    have "({w. get_all_frequencies s w = Some f} \<noteq> {}) = (\<exists>w. (w, f) \<in> set ?V)"
      using dV by (auto simp: get_all_frequencies_def)
    also have "\<dots> = (f \<in> snd ` set ?V)" by force
    finally show ?thesis by (simp add: words_with_pos_iff)
  qed
  have "card (dom (get_all_frequencies s)) = card (set (map fst ?V))"
    by (simp add: get_all_frequencies_def dom_map_of_conv_image_fst)
  also have "\<dots> = length ?V" using dV by (simp only: distinct_card length_map)
  finally have a: "sum_list (map snd (get_frequency_counts s)) = int (card (dom (get_all_frequencies s)))"
    using sum_counts[OF ok h] by (simp add: get_frequency_counts_def)
  have b: "\<forall>f. {w. get_all_frequencies s w = Some f} \<noteq> {} \<longrightarrow>
          filter (\<lambda>n. fst n = f) (get_frequency_counts s)
            = [(f, int (card {w. get_all_frequencies s w = Some f}))]"
  proof (intro allI impI)
    fix f assume "{w. get_all_frequencies s w = Some f} \<noteq> {}"
    then have "0 < words_with ?V f" by (simp only: held)
    with h have pos: "0 < get0 ?N f" by simp
    then have "f \<in> fst ` set ?N" by (simp only: node_key_iff[OF ok])
    then obtain n where n: "n \<in> set ?N" "fst n = f" by auto
    from node_count[OF ok n(1)] n(2) h have "snd n = words_with ?V f" by simp
    with n have "(f, words_with ?V f) \<in> set ?N" by (metis prod.collapse)
    from one_node_per_key[OF dN this]
    show "filter (\<lambda>n. fst n = f) (get_frequency_counts s)
            = [(f, int (card {w. get_all_frequencies s w = Some f}))]"
      by (simp add: get_frequency_counts_def card)
  qed
  have c: "\<forall>n\<in>set (get_frequency_counts s). {w. get_all_frequencies s w = Some (fst n)} \<noteq> {}"
  proof
    fix n assume "n \<in> set (get_frequency_counts s)"
    then have "fst n \<in> fst ` set ?N" by (simp add: get_frequency_counts_def)
    then have "0 < get0 ?N (fst n)" by (simp only: node_key_iff[OF ok])
    with h have "0 < words_with ?V (fst n)" by simp
    then show "{w. get_all_frequencies s w = Some (fst n)} \<noteq> {}" by (simp only: held)
  qed
  from a b c show ?thesis by blast
qed

theorem histogram_matches_counter_witness:
  "get_all_frequencies (run remdups [Add_words ''a, b, a, c, c, c'', Add_words ''a, d, d'']) ''d''
     = Some 2
   \<and> filter (\<lambda>n. fst n = 2)
       (get_frequency_counts (run remdups [Add_words ''a, b, a, c, c, c'', Add_words ''a, d, d'']))
     = [(2, int (card {w. get_all_frequencies
          (run remdups [Add_words ''a, b, a, c, c, c'', Add_words ''a, d, d'']) w = Some 2}))]
   \<and> get_frequency_counts (run remdups [Add_words ''a, b, a, c, c, c'', Add_words ''a, d, d''])
     = [(3, 2), (2, 1), (1, 1)]"
proof -
  let ?s = "run remdups [Add_words ''a, b, a, c, c, c'', Add_words ''a, d, d'']"
  have n: "get_frequency_counts ?s = [(3, 2), (2, 1), (1, 1)]" by code_simp
  have "word_counts ?s = [(''a'', 3), (''b'', 1), (''c'', 3), (''d'', 2)]" by code_simp
  then have d: "get_all_frequencies ?s ''d'' = Some 2" by (simp add: get_all_frequencies_def)
  then have "{w. get_all_frequencies ?s w = Some 2} \<noteq> {}" by blast
  with histogram_matches_counter[of remdups "[Add_words ''a, b, a, c, c, c'', Add_words ''a, d, d'']"]
  have "filter (\<lambda>n. fst n = 2) (get_frequency_counts ?s)
     = [(2, int (card {w. get_all_frequencies ?s w = Some 2}))]" by blast
  with d n show ?thesis by blast
qed

text \<open>
  C6. In every reachable state the nodes of the frequency count list are in strictly
  descending order of frequency, no two share a frequency, and every count is positive.
  A round of the update loop that finds the node of its frequency and brings its count
  to 0 or below unlinks that node in the same round: the list after the round has no node
  of that frequency, and after any round, and any whole update, it is well formed again.
\<close>

theorem histogram_well_formed:
  fixes iter ops
  defines "nodes \<equiv> get_frequency_counts (run iter ops)"
  shows "sorted_wrt (>) (map fst nodes)
    \<and> distinct (map fst nodes)
    \<and> (\<forall>n\<in>set nodes. 0 < snd n)
    \<and> (\<forall>f d i. d \<noteq> 0 \<longrightarrow> find_frequency_node nodes f = Some i \<longrightarrow> snd (nodes ! i) + d \<le> 0 \<longrightarrow>
          apply_change nodes (f, d) = remove_frequency_node nodes i
          \<and> f \<notin> fst ` set (apply_change nodes (f, d)))
    \<and> (\<forall>item. freq_nodes_ok (apply_change nodes item))
    \<and> (\<forall>changes. freq_nodes_ok (update_frequency_counts nodes changes))"
proof -
  have ok: "freq_nodes_ok nodes"
    unfolding nodes_def get_frequency_counts_def by (rule run_counts_facts)
  have a: "sorted_wrt (>) (map fst nodes)" "\<forall>n\<in>set nodes. 0 < snd n"
    using ok by (simp_all add: freq_nodes_ok_def list_all_iff)
  have b: "distinct (map fst nodes)" using ok by (rule freq_nodes_ok_distinct)
  have c: "\<forall>f d i. d \<noteq> 0 \<longrightarrow> find_frequency_node nodes f = Some i \<longrightarrow> snd (nodes ! i) + d \<le> 0 \<longrightarrow>
          apply_change nodes (f, d) = remove_frequency_node nodes i
          \<and> f \<notin> fst ` set (apply_change nodes (f, d))"
  proof (intro allI impI)
    fix f d i
    assume d: "d \<noteq> 0" and i: "find_frequency_node nodes f = Some i"
      and le: "snd (nodes ! i) + d \<le> 0"
    from apply_change_found[OF d i] le
    have e: "apply_change nodes (f, d) = remove_frequency_node nodes i" by simp
    from find_Some[OF i] have i': "i < length nodes" "fst (nodes ! i) = f" by simp_all
    from get0_remove[OF b i'(1), of f] i'(2)
    have "get0 (remove_frequency_node nodes i) f = 0" by simp
    moreover have "freq_nodes_ok (remove_frequency_node nodes i)"
      using apply_change_ok[OF ok, of f d] by (simp only: e)
    ultimately have "f \<notin> fst ` set (remove_frequency_node nodes i)"
      using node_key_iff[of "remove_frequency_node nodes i" f] by simp
    with e show "apply_change nodes (f, d) = remove_frequency_node nodes i
          \<and> f \<notin> fst ` set (apply_change nodes (f, d))" by simp
  qed
  have d: "\<forall>item. freq_nodes_ok (apply_change nodes item)"
  proof
    fix item :: "int \<times> int"
    from apply_change_ok[OF ok, of "fst item" "snd item"]
    show "freq_nodes_ok (apply_change nodes item)" by simp
  qed
  have e: "\<forall>changes. freq_nodes_ok (update_frequency_counts nodes changes)"
    using update_frequency_counts_ok[OF ok] by blast
  from a b c d e show ?thesis by blast
qed

theorem histogram_well_formed_witness:
  "find_frequency_node (get_frequency_counts (run remdups [Add_words ''a, b, a''])) 1 = Some 1
   \<and> snd (get_frequency_counts (run remdups [Add_words ''a, b, a'']) ! 1) + (- 1) \<le> 0
   \<and> apply_change (get_frequency_counts (run remdups [Add_words ''a, b, a''])) (1, - 1)
       = remove_frequency_node (get_frequency_counts (run remdups [Add_words ''a, b, a''])) 1
   \<and> 1 \<notin> fst ` set (apply_change (get_frequency_counts (run remdups [Add_words ''a, b, a''])) (1, - 1))
   \<and> get_frequency_counts (run remdups [Add_words ''a, b, a'', Add_words ''b'']) = [(2, 2)]"
proof -
  let ?n = "get_frequency_counts (run remdups [Add_words ''a, b, a''])"
  have n: "?n = [(2, 1), (1, 1)]" by code_simp
  have f: "find_frequency_node ?n 1 = Some 1" unfolding n by simp
  have l: "snd (?n ! 1) + (- 1) \<le> 0" unfolding n by simp
  have d: "(- 1 :: int) \<noteq> 0" by simp
  have r: "get_frequency_counts (run remdups [Add_words ''a, b, a'', Add_words ''b'']) = [(2, 2)]"
    by code_simp
  from histogram_well_formed[of remdups "[Add_words ''a, b, a'']"] d f l
  have "apply_change ?n (1, - 1) = remove_frequency_node ?n 1
      \<and> 1 \<notin> fst ` set (apply_change ?n (1, - 1))" by blast
  with f l r show ?thesis by blast
qed

section \<open>Count fidelity\<close>

lemma batches_snoc_clear: "batches_since_reset (ops @ [Clear]) = []"
proof (induction ops)
  case Nil
  then show ?case by simp
next
  case (Cons op ops)
  then show ?case by (cases op) simp_all
qed

lemma batches_snoc_add:
  "batches_since_reset (ops @ [Add_words str]) = batches_since_reset ops @ [str]"
proof (induction ops)
  case Nil
  then show ?case by simp
next
  case (Cons op ops)
  then show ?case by (cases op) simp_all
qed

lemma count_list_map:
  "count_list (map g xs) w = length (filter (\<lambda>x. g x = w) xs)"
  by (induction xs) simp_all

lemma count_tokenize:
  assumes "w \<noteq> []"
  shows "count_list (tokenize str) w = occurrences w str"
proof -
  have "(strip p \<noteq> [] \<and> lower (strip p) = w) = (lower (strip p) = w)" for p
    using assms by (auto simp: lower_def)
  then show ?thesis
    by (simp add: tokenize_def occurrences_def count_list_map)
qed

lemma add_words_get0:
  assumes c: "counts_consistent s"
  shows "get0 (word_counts (add_words iter s str)) w
    = get0 (word_counts s) w + int (count_list (tokenize str) w)"
proof (cases "tokenize str = []")
  case True
  then show ?thesis by (simp add: add_words_def add_words_traced_def)
next
  case ne: False
  from c have dV0: "distinct (map fst (word_counts s))"
    and pos0: "\<forall>x\<in>set (word_counts s). 1 \<le> snd x"
    by (simp_all add: counts_consistent_def list_all_iff)
  obtain counts changes changed t where
    f: "foldl count_word (word_counts s, [], [], total_words s) (tokenize str)
        = (counts, changes, changed, t)"
    by (metis prod_cases4)
  have dnil: "distinct (map fst ([] :: (int \<times> int) list))" by simp
  from count_words_fold[OF dV0 pos0 dnil f]
  have chd: "changed = tokenize str"
    and g: "\<forall>w. get0 counts w = get0 (word_counts s) w + int (count_list (tokenize str) w)"
    by simp_all
  from chd ne have ch: "changed \<noteq> []" by simp
  have "word_counts (add_words iter s str) = counts"
    by (simp add: add_words_def add_words_traced_batch[OF ne f ch])
  with g show ?thesis by simp
qed

lemma run_get0:
  assumes "w \<noteq> []"
  shows "get0 (word_counts (run iter ops)) w = int (total_occurrences w ops)"
proof (induction ops rule: rev_induct)
  case Nil
  then show ?case by (simp add: run_Nil init_def get0_Nil total_occurrences_def)
next
  case (snoc op ops)
  show ?case
  proof (cases op)
    case (Add_words str)
    from add_words_get0[OF run_counts_consistent, of iter iter ops str w] snoc.IH
    show ?thesis
      by (simp add: Add_words run_snoc total_occurrences_def batches_snoc_add
          count_tokenize[OF assms])
  next
    case Clear
    then show ?thesis
      by (simp add: run_snoc clear_def get0_Nil total_occurrences_def batches_snoc_clear)
  qed
qed

text \<open>
  C2. After any sequence of batches and resets, and for every non-empty word \<open>w\<close> (a
  normalized token is never empty), the frequency mapping has no entry for \<open>w\<close> when no
  comma-separated piece of a batch ingested since construction or the last reset is \<open>w\<close>
  once trimmed and case-folded, and otherwise maps \<open>w\<close> to the number of such pieces.
\<close>

theorem count_fidelity:
  assumes "w \<noteq> []"
  shows "get_all_frequencies (run iter ops) w =
    (if total_occurrences w ops = 0 then None else Some (int (total_occurrences w ops)))"
proof -
  let ?V = "word_counts (run iter ops)"
  have pos: "\<forall>x\<in>set ?V. 1 \<le> snd x" by (rule run_counts_facts)
  have g: "get0 ?V w = int (total_occurrences w ops)" using assms by (rule run_get0)
  show ?thesis
  proof (cases "map_of ?V w")
    case None
    then have "get0 ?V w = 0" by (simp add: get0_def)
    with g None show ?thesis by (simp add: get_all_frequencies_def)
  next
    case (Some v)
    then have "(w, v) \<in> set ?V" by (rule map_of_SomeD)
    with pos have "1 \<le> v" by force
    moreover from Some have "get0 ?V w = v" by (simp add: get0_def)
    ultimately show ?thesis using g Some by (simp add: get_all_frequencies_def)
  qed
qed

theorem count_fidelity_witness:
  "''fig'' \<noteq> []
   \<and> get_all_frequencies
        (run remdups [Add_words ''fig, apple'', Clear, Add_words ''banana, FIG , fig'',
                      Add_words '' Fig,,cherry''])
        ''fig''
     = Some 3
   \<and> total_occurrences ''fig''
        [Add_words ''fig, apple'', Clear, Add_words ''banana, FIG , fig'',
         Add_words '' Fig,,cherry''] = 3"
proof -
  have n: "''fig'' \<noteq> []" by simp
  have t: "total_occurrences ''fig''
        [Add_words ''fig, apple'', Clear, Add_words ''banana, FIG , fig'',
         Add_words '' Fig,,cherry''] = 3"
    by code_simp
  from count_fidelity[OF n, of remdups
      "[Add_words ''fig, apple'', Clear, Add_words ''banana, FIG , fig'', Add_words '' Fig,,cherry'']"]
  have "get_all_frequencies
        (run remdups [Add_words ''fig, apple'', Clear, Add_words ''banana, FIG , fig'',
                      Add_words '' Fig,,cherry''])
        ''fig'' = Some 3"
    unfolding t by simp
  with n t show ?thesis by blast
qed

section \<open>The median\<close>

lemma frequency_multiset_eq:
  assumes d: "distinct (map fst (word_counts s))"
  shows "frequency_multiset s = mset (map snd (word_counts s))"
proof -
  let ?V = "word_counts s"
  let ?g = "\<lambda>w. the (map_of ?V w)"
  have "dom (map_of ?V) = set (map fst ?V)" by (simp add: dom_map_of_conv_image_fst)
  then have "mset_set (dom (map_of ?V)) = mset (map fst ?V)"
    using d by (simp only: mset_set_set)
  then have "frequency_multiset s = image_mset ?g (mset (map fst ?V))"
    by (simp only: frequency_multiset_def get_all_frequencies_def)
  also have "\<dots> = image_mset (\<lambda>x. ?g (fst x)) (mset ?V)"
    by (simp add: multiset.map_comp comp_def)
  also have "\<dots> = image_mset snd (mset ?V)"
  proof (rule image_mset_cong)
    fix x assume "x \<in># mset ?V"
    then have "(fst x, snd x) \<in> set ?V" by simp
    with d have "map_of ?V (fst x) = Some (snd x)" by (rule map_of_is_SomeI)
    then show "the (map_of ?V (fst x)) = snd x" by simp
  qed
  also have "\<dots> = mset (map snd ?V)" by simp
  finally show ?thesis .
qed

lemma sort_Nil_iff: "(sort xs = []) = (xs = [])"
  by (metis length_sort length_0_conv)

text \<open>
  C4. In every reachable state \<open>get_median_frequency\<close> is the statistical median of the
  multiset that holds one frequency per distinct word: the central value of the ascending
  frequencies for an odd vocabulary size, the average of the two central ones for an even
  size, and 0 for the empty vocabulary (as on a new analyzer and after a reset).
\<close>

theorem median_is_statistical_median:
  "get_median_frequency (run iter ops) = statistical_median (frequency_multiset (run iter ops))
   \<and> statistical_median {#} = 0
   \<and> get_median_frequency init = 0
   \<and> get_median_frequency (clear (run iter ops)) = 0"
proof -
  let ?s = "run iter ops"
  let ?V = "word_counts ?s"
  have d: "distinct (map fst ?V)" by (rule run_counts_facts)
  have m: "frequency_multiset ?s = mset (map snd ?V)" using d by (rule frequency_multiset_eq)
  have a: "get_median_frequency ?s = statistical_median (frequency_multiset ?s)"
  proof (cases "?V = []")
    case True
    then show ?thesis
      by (simp add: m get_median_frequency_def statistical_median_def)
  next
    case False
    then have "length ?V \<noteq> 0" by simp
    then show ?thesis
      unfolding m get_median_frequency_def statistical_median_def sorted_list_of_multiset_mset
      by (simp add: Let_def False even_iff_mod_2_eq_zero sort_Nil_iff)
  qed
  have b: "statistical_median {#} = 0" by (simp add: statistical_median_def)
  have c: "get_median_frequency init = 0" "get_median_frequency (clear ?s) = 0"
    by (simp_all add: get_median_frequency_def init_def clear_def)
  from a b c show ?thesis by blast
qed

theorem median_is_statistical_median_witness:
  "statistical_median (frequency_multiset (run remdups [Add_words ''a, b, a, c, c, c'', Add_words ''a, d, d'']))
     = 5 / 2
   \<and> statistical_median (frequency_multiset (run remdups [Add_words ''a, b, a, c, c, c'']))
     = 2"
proof -
  have 1: "get_median_frequency (run remdups [Add_words ''a, b, a, c, c, c'', Add_words ''a, d, d''])
      = 5 / 2"
    by code_simp
  have 2: "get_median_frequency (run remdups [Add_words ''a, b, a, c, c, c'']) = 2"
    by code_simp
  from median_is_statistical_median[of remdups "[Add_words ''a, b, a, c, c, c'', Add_words ''a, d, d'']"]
    median_is_statistical_median[of remdups "[Add_words ''a, b, a, c, c, c'']"] 1 2
  show ?thesis by simp
qed

section \<open>When the full rebuild runs\<close>

lemma build_empty_iff: "(build_initial_top5 V = []) = (V = [])"
proof (cases V)
  case Nil
  then show ?thesis by (simp add: build_initial_top5_def)
next
  case (Cons x xs)
  have "length (build_initial_top5 V) = min 5 (length V)" by (simp add: build_initial_top5_def)
  with Cons have "length (build_initial_top5 V) \<noteq> 0" by simp
  then have "build_initial_top5 V \<noteq> []" by (simp only: length_0_conv not_False_eq_True)
  with Cons show ?thesis by simp
qed

lemma add_words_path:
  assumes c: "counts_consistent s" and ne: "tokenize str \<noteq> []"
  shows "fst (add_words_traced iter s str)
      = Some (if top_five_nodes s = [] then Full_rebuild else Incremental)"
    and "word_counts (add_words iter s str) \<noteq> []"
proof -
  from c have dV0: "distinct (map fst (word_counts s))"
    and pos0: "\<forall>x\<in>set (word_counts s). 1 \<le> snd x"
    by (simp_all add: counts_consistent_def list_all_iff)
  obtain counts changes changed t where
    f: "foldl count_word (word_counts s, [], [], total_words s) (tokenize str)
        = (counts, changes, changed, t)"
    by (metis prod_cases4)
  have dnil: "distinct (map fst ([] :: (int \<times> int) list))" by simp
  from count_words_fold[OF dV0 pos0 dnil f]
  have chd: "changed = tokenize str"
    and keys: "fst ` set counts = fst ` set (word_counts s) \<union> set (tokenize str)"
    by simp_all
  from chd ne have ch: "changed \<noteq> []" by simp
  show "fst (add_words_traced iter s str)
      = Some (if top_five_nodes s = [] then Full_rebuild else Incremental)"
    by (simp add: add_words_traced_batch[OF ne f ch] update_top_five_incremental_def)
  have "word_counts (add_words iter s str) = counts"
    by (simp add: add_words_def add_words_traced_batch[OF ne f ch])
  moreover from keys ne have "fst ` set counts \<noteq> {}" by simp
  ultimately show "word_counts (add_words iter s str) \<noteq> []" by auto
qed

lemma add_words_path_none: "tokenize str = [] \<Longrightarrow> fst (add_words_traced iter s str) = None"
  by (simp add: add_words_traced_def)

lemma add_words_noop: "tokenize str = [] \<Longrightarrow> add_words iter s str = s"
  by (simp add: add_words_def add_words_traced_def)

lemma rebuilds_bound:
  assumes ord: "set_order iter"
  shows "consistent s \<Longrightarrow> Clear \<notin> set ops \<Longrightarrow>
    count_list (trace iter s ops) (Some Full_rebuild) \<le> (if word_counts s = [] then 1 else 0)"
proof (induction ops arbitrary: s)
  case Nil
  then show ?case by simp
next
  case (Cons op ops)
  from Cons.prems(2) obtain str where op: "op = Add_words str" by (cases op) simp_all
  from Cons.prems(2) have nc: "Clear \<notin> set ops" by simp
  from Cons.prems(1) have cc: "counts_consistent s"
    and top: "(top_five_nodes s = []) = (word_counts s = [])"
    by (simp_all add: consistent_def build_empty_iff)
  show ?case
  proof (cases "tokenize str = []")
    case True
    from Cons.IH[OF Cons.prems(1) nc] show ?thesis
      by (simp add: op add_words_path_none[OF True] add_words_noop[OF True])
  next
    case False
    let ?s' = "add_words iter s str"
    have c': "consistent ?s'" using ord Cons.prems(1) by (rule add_words_consistent)
    have ne': "word_counts ?s' \<noteq> []" using cc False by (rule add_words_path(2))
    from Cons.IH[OF c' nc] ne'
    have "count_list (trace iter ?s' ops) (Some Full_rebuild) = 0" by simp
    then show ?thesis
      by (simp add: op add_words_path(1)[OF cc False] top)
  qed
qed

lemma vocabulary_empty_iff:
  "(word_counts (run iter ops) = []) = (\<forall>b\<in>set (batches_since_reset ops). tokenize b = [])"
proof (induction ops rule: rev_induct)
  case Nil
  then show ?case by (simp add: run_Nil init_def)
next
  case (snoc op ops)
  show ?case
  proof (cases op)
    case Clear
    then show ?thesis by (simp add: run_snoc clear_def batches_snoc_clear)
  next
    case (Add_words str)
    show ?thesis
    proof (cases "tokenize str = []")
      case True
      with snoc.IH show ?thesis
        by (simp add: Add_words run_snoc add_words_noop batches_snoc_add)
    next
      case False
      from add_words_path(2)[OF run_counts_consistent False, of iter iter ops] False
      show ?thesis by (simp add: Add_words run_snoc batches_snoc_add)
    qed
  qed
qed

text \<open>
  C9, as the specification states it: over any sequence of operations, resets included, the full
  rebuild runs at most once. It does not hold: \<open>clear\<close> empties the top 5 list, so the
  next batch with a token finds it empty and rebuilds again.
\<close>

theorem full_rebuild_after_reset_counterexample:
  "set_order remdups
   \<and> trace remdups init [Add_words ''a'', Clear, Add_words ''b'']
       = [Some Full_rebuild, None, Some Full_rebuild]
   \<and> \<not> full_rebuilds remdups [Add_words ''a'', Clear, Add_words ''b''] \<le> 1"
proof -
  have t: "trace remdups init [Add_words ''a'', Clear, Add_words ''b'']
       = [Some Full_rebuild, None, Some Full_rebuild]"
    by code_simp
  then have "full_rebuilds remdups [Add_words ''a'', Clear, Add_words ''b''] = 2"
    by (simp add: full_rebuilds_def)
  with t set_order_remdups show ?thesis by simp
qed

text \<open>
  C9, amended. A batch takes the full rebuild path exactly when it has a token and the
  vocabulary is empty, that is, when no batch since construction or the last reset had a
  token; every other batch with a token takes the incremental path, and a batch without
  one runs no update. So a sequence of operations without a reset runs the full rebuild
  at most once, on its first batch with a token.
\<close>

theorem full_rebuild_once_between_resets:
  assumes "set_order iter"
  shows "(Clear \<notin> set ops \<longrightarrow> full_rebuilds iter ops \<le> 1)
    \<and> fst (add_words_traced iter (run iter ops) words_string) =
        (if tokenize words_string = [] then None
         else if word_counts (run iter ops) = [] then Some Full_rebuild
         else Some Incremental)
    \<and> (word_counts (run iter ops) = []) = (\<forall>b\<in>set (batches_since_reset ops). tokenize b = [])"
proof -
  have a: "Clear \<notin> set ops \<longrightarrow> full_rebuilds iter ops \<le> 1"
  proof
    assume "Clear \<notin> set ops"
    from rebuilds_bound[OF assms consistent_init this] show "full_rebuilds iter ops \<le> 1"
      by (simp add: full_rebuilds_def init_def)
  qed
  from run_consistent[OF assms, of ops]
  have cc: "counts_consistent (run iter ops)"
    and top: "(top_five_nodes (run iter ops) = []) = (word_counts (run iter ops) = [])"
    by (simp_all add: consistent_def build_empty_iff)
  have b: "fst (add_words_traced iter (run iter ops) words_string) =
        (if tokenize words_string = [] then None
         else if word_counts (run iter ops) = [] then Some Full_rebuild
         else Some Incremental)"
  proof (cases "tokenize words_string = []")
    case True
    then show ?thesis by (simp add: add_words_path_none)
  next
    case False
    from add_words_path(1)[OF cc False, of iter] False top show ?thesis by simp
  qed
  from a b vocabulary_empty_iff[of iter ops] show ?thesis by blast
qed

theorem full_rebuild_once_between_resets_witness:
  "set_order remdups
   \<and> Clear \<notin> set [Add_words '' , '', Add_words ''a, b'', Add_words ''c'']
   \<and> full_rebuilds remdups [Add_words '' , '', Add_words ''a, b'', Add_words ''c''] \<le> 1
   \<and> trace remdups init [Add_words '' , '', Add_words ''a, b'', Add_words ''c'']
       = [None, Some Full_rebuild, Some Incremental]
   \<and> fst (add_words_traced remdups (run remdups [Add_words '' , '', Add_words ''a, b'']) ''c'')
       = Some Incremental"
proof -
  have c: "Clear \<notin> set [Add_words '' , '', Add_words ''a, b'', Add_words ''c'']" by simp
  have t: "trace remdups init [Add_words '' , '', Add_words ''a, b'', Add_words ''c'']
       = [None, Some Full_rebuild, Some Incremental]"
    by code_simp
  have k: "tokenize ''c'' \<noteq> []" by code_simp
  have v: "word_counts (run remdups [Add_words '' , '', Add_words ''a, b'']) \<noteq> []" by code_simp
  from full_rebuild_once_between_resets[OF set_order_remdups,
      of "[Add_words '' , '', Add_words ''a, b'', Add_words ''c'']"] c
  have 1: "full_rebuilds remdups [Add_words '' , '', Add_words ''a, b'', Add_words ''c''] \<le> 1"
    by blast
  from full_rebuild_once_between_resets[OF set_order_remdups,
      of "[Add_words '' , '', Add_words ''a, b'']" "''c''"] k v
  have 2: "fst (add_words_traced remdups (run remdups [Add_words '' , '', Add_words ''a, b'']) ''c'')
       = Some Incremental"
    by simp
  from set_order_remdups c 1 t 2 show ?thesis by blast
qed

end
